theory Spec2Isabelle
  imports Main "HOL-Library.Product_Lexorder"
begin

section \<open>The result records of the search algorithms\<close>

text \<open>
  Every algorithm returns a Python dict.  A dict is a partial map from its keys to values;
  the keys that occur in the four modules are enumerated by \<open>key\<close>.  A value is
  \<open>None\<close>, an integer, a list of states, a string, or a float (the elapsed time and
  nothing else; the clock is not modelled, so the float carries no payload).
\<close>

datatype key =
    K_path | K_g | K_expanded | K_generated | K_duplicates
  | K_peak_open | K_peak_closed | K_peak_recursion | K_bound_final
  | K_time | K_algorithm | K_tie_break | K_termination

datatype 's val = VNone | VInt int | VPath "'s list" | VStr string | VFloat

type_synonym 's pydict = "key \<rightharpoonup> 's val"

text \<open>
  The only use of the clock in the control flow is the test
  \<open>timeout_sec is not None and (perf_counter() - t0) > timeout_sec\<close>.  The clock is
  monotone, so a run sees the test fail some number of times and then succeed.  A run is
  therefore parameterised by a budget: \<open>None\<close> when the test never succeeds (in particular
  when \<open>timeout_sec\<close> is \<open>None\<close>), \<open>Some k\<close> when exactly the first \<open>k\<close> tests fail.
\<close>

definition expired :: "nat option \<Rightarrow> bool" where
  "expired b = (b = Some 0)"

definition tick :: "nat option \<Rightarrow> nat option" where
  "tick b = map_option (\<lambda>n. n - 1) b"

section \<open>Best-first search: \<open>src/search/a_star.py\<close>\<close>

datatype 's pqitem =
  PQItem (it_f: int) (it_h: int) (it_g: int) (it_state: 's) (it_parent: "'s pqitem option")

fun chain :: "'s pqitem \<Rightarrow> 's list" where
  "chain (PQItem f h g s None) = [s]"
| "chain (PQItem f h g s (Some p)) = s # chain p"

definition reconstruct_path :: "'s pqitem \<Rightarrow> 's list" where
  "reconstruct_path node = rev (chain node)"

text \<open>
  A heap entry is the tuple \<open>(priority, ctr, item)\<close>.  Python compares such tuples
  lexicographically; the counter is fresh for every push, so the comparison is decided by
  \<open>(priority, ctr)\<close> and never reaches the item.  \<open>heappop\<close> returns the least entry;
  the array layout of \<open>heapq\<close> is not modelled, the heap is the list of its entries.
\<close>

type_synonym 's entry = "(int \<times> int \<times> int) \<times> int \<times> 's pqitem"

definition entry_key :: "'s entry \<Rightarrow> (int \<times> int \<times> int) \<times> int" where
  "entry_key e = (fst e, fst (snd e))"

definition heappush :: "'s entry list \<Rightarrow> 's entry \<Rightarrow> 's entry list" where
  "heappush hp e = hp @ [e]"

definition heappop :: "'s entry list \<Rightarrow> 's entry \<times> 's entry list" where
  "heappop hp = (let m = arg_min_list entry_key hp in (m, remove1 m hp))"

definition priority_tuple :: "string \<Rightarrow> int \<Rightarrow> int \<Rightarrow> int \<Rightarrow> int \<Rightarrow> int \<times> int \<times> int" where
  "priority_tuple tie_break f g h ctr =
     (if tie_break = ''h'' then (f, h, ctr)
      else if tie_break = ''g'' then (f, - g, ctr)
      else if tie_break = ''fifo'' then (f, 0, ctr)
      else if tie_break = ''lifo'' then (f, 0, - ctr)
      else (f, h, ctr))"

record 's astate =
  a_open :: "'s entry list"
  a_counter :: int
  a_best_g :: "'s \<rightharpoonup> int"
  a_closed :: "'s set"
  a_expanded :: int
  a_generated :: int
  a_duplicates :: int
  a_seen_ever :: "'s set"
  a_peak_open :: int
  a_peak_closed :: int
  a_budget :: "nat option"

definition a_record :: "'s astate \<Rightarrow> string \<Rightarrow> 's val \<Rightarrow> 's val \<Rightarrow> string \<Rightarrow> 's pydict" where
  "a_record st tie_break path g term =
     [K_path \<mapsto> path, K_g \<mapsto> g,
      K_expanded \<mapsto> VInt (a_expanded st), K_generated \<mapsto> VInt (a_generated st),
      K_duplicates \<mapsto> VInt (a_duplicates st),
      K_peak_open \<mapsto> VInt (a_peak_open st), K_peak_closed \<mapsto> VInt (a_peak_closed st),
      K_time \<mapsto> VFloat, K_algorithm \<mapsto> VStr ''A*'', K_tie_break \<mapsto> VStr tie_break,
      K_termination \<mapsto> VStr term]"

text \<open>The body of \<open>for s2, c in neighbors(node.state)\<close>, for one pair.\<close>

definition a_visit :: "('s \<Rightarrow> int) \<Rightarrow> string \<Rightarrow> 's pqitem \<Rightarrow> 's astate \<Rightarrow> 's \<times> int \<Rightarrow> 's astate" where
  "a_visit hfun tie_break node st sc =
     (let s2 = fst sc; c = snd sc;
          g2 = it_g node + c;
          h2 = hfun s2;
          f2 = g2 + h2;
          st1 = st\<lparr>a_generated := a_generated st + 1\<rparr>;
          st2 = (if s2 \<in> a_seen_ever st1
                 then st1\<lparr>a_duplicates := a_duplicates st1 + 1\<rparr>
                 else st1\<lparr>a_seen_ever := insert s2 (a_seen_ever st1)\<rparr>)
      in if (case a_best_g st2 s2 of None \<Rightarrow> True | Some b \<Rightarrow> g2 < b)
         then let child = PQItem f2 h2 g2 s2 (Some node);
                  pr = priority_tuple tie_break f2 g2 h2 (a_counter st2)
              in st2\<lparr>a_best_g := (a_best_g st2)(s2 \<mapsto> g2),
                     a_open := heappush (a_open st2) (pr, a_counter st2 + 1, child),
                     a_counter := a_counter st2 + 2\<rparr>
         else st2)"

text \<open>
  The \<open>while open_heap\<close> loop.  \<open>None\<close> is the run that never returns.
\<close>

partial_function (option) a_star_loop ::
  "'s \<Rightarrow> ('s \<Rightarrow> int) \<Rightarrow> ('s \<Rightarrow> ('s \<times> int) list) \<Rightarrow> string \<Rightarrow> bool \<Rightarrow> 's astate \<Rightarrow> 's pydict option"
where
  "a_star_loop goal hfun neighbors tie_break return_path st =
     (if a_open st = [] then Some (a_record st tie_break VNone VNone ''exhausted'')
      else if expired (a_budget st) then Some (a_record st tie_break VNone VNone ''timeout'')
      else
        let st1 = st\<lparr>a_budget := tick (a_budget st),
                     a_peak_open := max (a_peak_open st) (int (length (a_open st)))\<rparr>;
            node = snd (snd (fst (heappop (a_open st1))));
            st2 = st1\<lparr>a_open := snd (heappop (a_open st1))\<rparr>
        in if it_state node \<in> a_closed st2
           then a_star_loop goal hfun neighbors tie_break return_path st2
           else if it_state node = goal
           then Some (a_record st2 tie_break
                        (if return_path then VPath (reconstruct_path node) else VNone)
                        (VInt (it_g node)) ''ok'')
           else
             let st3 = st2\<lparr>a_closed := insert (it_state node) (a_closed st2),
                           a_expanded := a_expanded st2 + 1\<rparr>;
                 st4 = st3\<lparr>a_peak_closed := max (a_peak_closed st3) (int (card (a_closed st3)))\<rparr>
             in a_star_loop goal hfun neighbors tie_break return_path
                  (foldl (a_visit hfun tie_break node) st4 (neighbors (it_state node))))"

declare a_star_loop.simps [code]

definition a_init :: "'s \<Rightarrow> ('s \<Rightarrow> int) \<Rightarrow> string \<Rightarrow> nat option \<Rightarrow> 's astate" where
  "a_init start hfun tie_break budget =
     (let h0 = hfun start;
          start_item = PQItem h0 h0 0 start None
      in \<lparr>a_open = heappush [] (priority_tuple tie_break h0 0 h0 0, 1, start_item),
          a_counter = 2,
          a_best_g = [start \<mapsto> 0],
          a_closed = {},
          a_expanded = 0, a_generated = 0, a_duplicates = 0,
          a_seen_ever = {start},
          a_peak_open = 1, a_peak_closed = 0,
          a_budget = budget\<rparr>)"

definition a_star ::
  "'s \<Rightarrow> 's \<Rightarrow> ('s \<Rightarrow> int) \<Rightarrow> ('s \<Rightarrow> ('s \<times> int) list) \<Rightarrow> string \<Rightarrow> bool \<Rightarrow> nat option \<Rightarrow> 's pydict option"
where
  "a_star start goal hfun neighbors tie_break return_path budget =
     a_star_loop goal hfun neighbors tie_break return_path (a_init start hfun tie_break budget)"

section \<open>Breadth-first search: \<open>src/search/bfs.py\<close>\<close>

record 's bstate =
  b_q :: "'s list"
  b_parent :: "'s \<rightharpoonup> 's option"
  b_expanded :: int
  b_generated :: int
  b_seen :: "'s set"
  b_peak :: int
  b_budget :: "nat option"

text \<open>The record of \<open>bfs\<close> has no \<open>duplicates\<close> entry, in any of its three returns.\<close>

definition b_record :: "'s bstate \<Rightarrow> 's val \<Rightarrow> 's val \<Rightarrow> string \<Rightarrow> 's pydict" where
  "b_record st path g term =
     [K_path \<mapsto> path, K_g \<mapsto> g,
      K_expanded \<mapsto> VInt (b_expanded st), K_generated \<mapsto> VInt (b_generated st),
      K_time \<mapsto> VFloat, K_algorithm \<mapsto> VStr ''BFS'', K_termination \<mapsto> VStr term]"

text \<open>
  The reconstruction loop \<open>while s is not None: path.append(s); s = parent[s]; g += 1\<close>.
  A missing key raises \<open>KeyError\<close>: no record is returned, which is \<open>None\<close> here, as is
  a walk that never ends.
\<close>

partial_function (option) bfs_walk ::
  "('s \<rightharpoonup> 's option) \<Rightarrow> 's list \<Rightarrow> int \<Rightarrow> 's option \<Rightarrow> ('s list \<times> int) option"
where
  "bfs_walk parent path g cur =
     (case cur of
        None \<Rightarrow> Some (path, g)
      | Some s \<Rightarrow>
          (case parent s of
             None \<Rightarrow> None
           | Some p \<Rightarrow> bfs_walk parent (path @ [s]) (g + 1) p))"

declare bfs_walk.simps [code]

definition b_visit :: "'s \<Rightarrow> 's bstate \<Rightarrow> 's \<times> int \<Rightarrow> 's bstate" where
  "b_visit s st sc =
     (let s2 = fst sc;
          st1 = st\<lparr>b_generated := b_generated st + 1\<rparr>
      in if s2 \<in> b_seen st1 then st1
         else st1\<lparr>b_seen := insert s2 (b_seen st1),
                  b_parent := (b_parent st1)(s2 \<mapsto> Some s),
                  b_q := b_q st1 @ [s2]\<rparr>)"

partial_function (option) bfs_loop ::
  "'s \<Rightarrow> ('s \<Rightarrow> ('s \<times> int) list) \<Rightarrow> 's bstate \<Rightarrow> 's pydict option"
where
  "bfs_loop goal neighbors_fn st =
     (if b_q st = [] then Some (b_record st VNone VNone ''exhausted'')
      else if expired (b_budget st) then Some (b_record st VNone VNone ''timeout'')
      else
        let st1 = st\<lparr>b_budget := tick (b_budget st),
                     b_peak := max (b_peak st) (int (length (b_q st)))\<rparr>;
            s = hd (b_q st1);
            st2 = st1\<lparr>b_q := tl (b_q st1)\<rparr>
        in if s = goal
           then (case bfs_walk (b_parent st2) [] 0 (Some s) of
                   None \<Rightarrow> None
                 | Some pg \<Rightarrow> Some (b_record st2 (VPath (rev (fst pg))) (VInt (snd pg - 1)) ''ok''))
           else bfs_loop goal neighbors_fn
                  (foldl (b_visit s) (st2\<lparr>b_expanded := b_expanded st2 + 1\<rparr>) (neighbors_fn s)))"

declare bfs_loop.simps [code]

definition b_init :: "'s \<Rightarrow> nat option \<Rightarrow> 's bstate" where
  "b_init start budget =
     \<lparr>b_q = [start], b_parent = [start \<mapsto> None], b_expanded = 0, b_generated = 0,
      b_seen = {start}, b_peak = 1, b_budget = budget\<rparr>"

definition bfs :: "'s \<Rightarrow> 's \<Rightarrow> ('s \<Rightarrow> ('s \<times> int) list) \<Rightarrow> nat option \<Rightarrow> 's pydict option" where
  "bfs start goal neighbors_fn budget = bfs_loop goal neighbors_fn (b_init start budget)"

section \<open>Depth-first search: \<open>src/search/dfs.py\<close>\<close>

text \<open>
  A stack entry is \<open>(state, depth, iterator, expanded_flag)\<close>; the iterator is the list
  of the pairs it has not yielded yet.  The top of the stack (\<open>stack[-1]\<close>) is the head of
  the list.
\<close>

type_synonym 's frame = "'s \<times> int \<times> ('s \<times> int) list \<times> bool"

record 's dstate =
  d_stack :: "'s frame list"
  d_on_path :: "'s set"
  d_expanded :: int
  d_generated :: int
  d_duplicates :: int
  d_peak_depth :: int
  d_budget :: "nat option"

definition bound_final_of :: "int option \<Rightarrow> 's val" where
  "bound_final_of max_depth = (case max_depth of None \<Rightarrow> VStr [] | Some m \<Rightarrow> VInt m)"

definition d_record ::
  "int option \<Rightarrow> 's val \<Rightarrow> int \<Rightarrow> int \<Rightarrow> int \<Rightarrow> int \<Rightarrow> string \<Rightarrow> 's pydict"
where
  "d_record max_depth g expanded generated duplicates peak term =
     [K_path \<mapsto> VNone, K_g \<mapsto> g,
      K_expanded \<mapsto> VInt expanded, K_generated \<mapsto> VInt generated,
      K_duplicates \<mapsto> VInt duplicates,
      K_peak_recursion \<mapsto> VInt peak, K_bound_final \<mapsto> bound_final_of max_depth,
      K_time \<mapsto> VFloat, K_algorithm \<mapsto> VStr ''DFS'', K_termination \<mapsto> VStr term]"

definition d_record_of :: "int option \<Rightarrow> 's dstate \<Rightarrow> 's val \<Rightarrow> string \<Rightarrow> 's pydict" where
  "d_record_of max_depth st g term =
     d_record max_depth g (d_expanded st) (d_generated st) (d_duplicates st) (d_peak_depth st) term"

text \<open>
  The \<open>while stack\<close> loop.  \<open>on_path.remove(s)\<close> raises \<open>KeyError\<close> when \<open>s\<close> is not in
  the set; then no record is returned (\<open>None\<close>).
\<close>

partial_function (option) dfs_loop ::
  "'s \<Rightarrow> ('s \<Rightarrow> ('s \<times> int) list) \<Rightarrow> int option \<Rightarrow> 's dstate \<Rightarrow> 's pydict option"
where
  "dfs_loop goal neighbors_fn max_depth st =
     (case d_stack st of
        [] \<Rightarrow> Some (d_record_of max_depth st VNone ''exhausted'')
      | frm # stk \<Rightarrow>
          if expired (d_budget st) then Some (d_record_of max_depth st VNone ''timeout'')
          else
            let s = fst frm; d = fst (snd frm); it = fst (snd (snd frm));
                did_expand = snd (snd (snd frm));
                st1 = st\<lparr>d_budget := tick (d_budget st),
                         d_peak_depth := max (d_peak_depth st) d\<rparr>
            in (case it of
                  [] \<Rightarrow>
                    if s \<in> d_on_path st1
                    then dfs_loop goal neighbors_fn max_depth
                           (st1\<lparr>d_on_path := d_on_path st1 - {s}, d_stack := stk\<rparr>)
                    else None
                | sc # it' \<Rightarrow>
                    let s2 = fst sc;
                        st2 = st1\<lparr>d_stack := (s, d, it', did_expand) # stk\<rparr>
                    in if (case max_depth of None \<Rightarrow> False | Some m \<Rightarrow> d + 1 > m)
                       then dfs_loop goal neighbors_fn max_depth st2
                       else if s2 \<in> d_on_path st2
                       then dfs_loop goal neighbors_fn max_depth
                              (st2\<lparr>d_duplicates := d_duplicates st2 + 1\<rparr>)
                       else
                         let st3 = (if \<not> did_expand
                                    then st2\<lparr>d_expanded := d_expanded st2 + 1,
                                             d_stack := (s, d, it', True) # stk\<rparr>
                                    else st2);
                             st4 = st3\<lparr>d_generated := d_generated st3 + 1\<rparr>
                         in if s2 = goal
                            then Some (d_record_of max_depth st4 (VInt (d + 1)) ''ok'')
                            else dfs_loop goal neighbors_fn max_depth
                                   (st4\<lparr>d_on_path := insert s2 (d_on_path st4),
                                        d_stack := (s2, d + 1, neighbors_fn s2, False) # d_stack st4\<rparr>)))"

declare dfs_loop.simps [code]

definition d_init :: "'s \<Rightarrow> ('s \<Rightarrow> ('s \<times> int) list) \<Rightarrow> nat option \<Rightarrow> 's dstate" where
  "d_init start neighbors_fn budget =
     \<lparr>d_stack = [(start, 0, neighbors_fn start, False)], d_on_path = {start},
      d_expanded = 0, d_generated = 0, d_duplicates = 0, d_peak_depth = 0,
      d_budget = budget\<rparr>"

definition dfs ::
  "'s \<Rightarrow> 's \<Rightarrow> ('s \<Rightarrow> ('s \<times> int) list) \<Rightarrow> int option \<Rightarrow> nat option \<Rightarrow> 's pydict option"
where
  "dfs start goal neighbors_fn max_depth budget =
     (if start = goal then Some (d_record max_depth (VInt 0) 0 0 0 0 ''ok'')
      else dfs_loop goal neighbors_fn max_depth (d_init start neighbors_fn budget))"

section \<open>Iterative deepening: \<open>src/search/ida_star.py\<close>\<close>

text \<open>
  The nested function \<open>dfs\<close> returns the object \<open>TIMEOUT\<close>, an integer, or
  \<open>math.inf\<close>.  The integer \<open>-1\<close> means that the goal was found; it is an ordinary
  integer, as in the source, so an \<open>f\<close>-value \<open>-1\<close> would be read the same way.
\<close>

datatype dret = TIMEOUT | Fin int | Inf

fun dless :: "dret \<Rightarrow> dret \<Rightarrow> bool" where
  "dless (Fin a) (Fin b) = (a < b)"
| "dless (Fin a) Inf = True"
| "dless _ _ = False"

record 's istate =
  i_expanded :: int
  i_generated :: int
  i_duplicates :: int
  i_max_depth :: int
  i_solution_g :: "int option"
  i_ever_seen :: "'s set"
  i_parents :: "'s \<rightharpoonup> 's option"
  i_pathset :: "'s set"
  i_budget :: "nat option"

text \<open>
  \<open>ida_dfs\<close> is the nested \<open>dfs\<close>, \<open>ida_children\<close> the \<open>for\<close> loop over the
  successors inside it, with the local variables \<open>h_parent\<close> and \<open>min_next\<close> as
  arguments and the recursive call as its first argument \<open>call\<close>.  The first argument of
  \<open>ida_dfs\<close> bounds the depth of the recursion, as the interpreter's recursion limit
  does; \<open>None\<close> is the run that exceeds it, or that raises \<open>KeyError\<close> in
  \<open>pathset.remove(s2)\<close>.
\<close>

fun ida_children ::
  "('s \<Rightarrow> int \<Rightarrow> int \<Rightarrow> int \<Rightarrow> int \<Rightarrow> 's istate \<Rightarrow> (dret \<times> 's istate) option) \<Rightarrow>
   ('s \<Rightarrow> int) \<Rightarrow> bool \<Rightarrow>
   's \<Rightarrow> int \<Rightarrow> int \<Rightarrow> int \<Rightarrow> int \<Rightarrow> dret \<Rightarrow> ('s \<times> int) list \<Rightarrow> 's istate \<Rightarrow>
   (dret \<times> 's istate) option"
where
  "ida_children call hfun use_bpmx state g bound depth h_parent min_next [] st =
     Some (min_next, st)"
| "ida_children call hfun use_bpmx state g bound depth h_parent min_next (sc # rest) st =
     (let s2 = fst sc; c = snd sc
      in if s2 \<in> i_pathset st
         then ida_children call hfun use_bpmx state g bound depth h_parent min_next rest st
         else
           let g2 = g + c;
               h2_raw = hfun s2;
               maybe_parent = h2_raw - c;
               raised = (use_bpmx \<and> maybe_parent > h_parent);
               h_parent' = (if raised then maybe_parent else h_parent)
           in if raised \<and> g + h_parent' > bound then Some (Fin (g + h_parent'), st)
              else
                let h2 = (if use_bpmx then max h2_raw (h_parent' - c) else h2_raw);
                    st1 = st\<lparr>i_generated := i_generated st + 1\<rparr>;
                    st2 = (if s2 \<in> i_ever_seen st1
                           then st1\<lparr>i_duplicates := i_duplicates st1 + 1\<rparr>
                           else st1\<lparr>i_ever_seen := insert s2 (i_ever_seen st1)\<rparr>);
                    st3 = st2\<lparr>i_parents := (i_parents st2)(s2 \<mapsto> Some state),
                              i_pathset := insert s2 (i_pathset st2)\<rparr>
                in (case call s2 g2 bound h2 (depth + 1) st3 of
                      None \<Rightarrow> None
                    | Some r \<Rightarrow>
                        let t = fst r; st4 = snd r
                        in if t = TIMEOUT then Some (TIMEOUT, st4)
                           else if t = Fin (- 1) then Some (Fin (- 1), st4)
                           else if s2 \<notin> i_pathset st4 then None
                           else ida_children call hfun use_bpmx state g bound depth h_parent'
                                  (if dless t min_next then t else min_next) rest
                                  (st4\<lparr>i_pathset := i_pathset st4 - {s2}\<rparr>)))"

primrec ida_dfs ::
  "nat \<Rightarrow> 's \<Rightarrow> ('s \<Rightarrow> int) \<Rightarrow> ('s \<Rightarrow> ('s \<times> int) list) \<Rightarrow> bool \<Rightarrow>
   's \<Rightarrow> int \<Rightarrow> int \<Rightarrow> int \<Rightarrow> int \<Rightarrow> 's istate \<Rightarrow> (dret \<times> 's istate) option"
where
  "ida_dfs 0 goal hfun neighbors use_bpmx state g bound h_s depth st = None"
| "ida_dfs (Suc lim) goal hfun neighbors use_bpmx state g bound h_s depth st =
     (if expired (i_budget st) then Some (TIMEOUT, st)
      else
        let st1 = st\<lparr>i_budget := tick (i_budget st),
                     i_max_depth := max (i_max_depth st) depth\<rparr>;
            f_here = g + h_s
        in if f_here > bound then Some (Fin f_here, st1)
           else if state = goal then Some (Fin (- 1), st1\<lparr>i_solution_g := Some g\<rparr>)
           else ida_children (ida_dfs lim goal hfun neighbors use_bpmx) hfun use_bpmx
                  state g bound depth h_s Inf
                  (neighbors state) (st1\<lparr>i_expanded := i_expanded st1 + 1\<rparr>))"

text \<open>\<open>reconstruct_path(parents, goal)\<close>; \<open>parents.get(s)\<close> is \<open>None\<close> for a missing key.\<close>

partial_function (option) ida_walk ::
  "('s \<rightharpoonup> 's option) \<Rightarrow> 's list \<Rightarrow> 's option \<Rightarrow> 's list option"
where
  "ida_walk parents path cur =
     (case cur of
        None \<Rightarrow> Some path
      | Some s \<Rightarrow>
          ida_walk parents (path @ [s]) (case parents s of None \<Rightarrow> None | Some p \<Rightarrow> p))"

declare ida_walk.simps [code]

definition ida_reconstruct_path :: "('s \<rightharpoonup> 's option) \<Rightarrow> 's \<Rightarrow> 's list option" where
  "ida_reconstruct_path parents goal = map_option rev (ida_walk parents [] (Some goal))"

definition i_record :: "'s istate \<Rightarrow> bool \<Rightarrow> int \<Rightarrow> 's val \<Rightarrow> 's val \<Rightarrow> string \<Rightarrow> 's pydict" where
  "i_record st use_bpmx bound path g term =
     [K_path \<mapsto> path, K_g \<mapsto> g,
      K_expanded \<mapsto> VInt (i_expanded st), K_generated \<mapsto> VInt (i_generated st),
      K_duplicates \<mapsto> VInt (i_duplicates st),
      K_peak_recursion \<mapsto> VInt (i_max_depth st), K_bound_final \<mapsto> VInt bound,
      K_time \<mapsto> VFloat,
      K_algorithm \<mapsto> VStr (if use_bpmx then ''IDA* (BPMX ON)'' else ''IDA*''),
      K_termination \<mapsto> VStr term]"

definition val_of_int_option :: "int option \<Rightarrow> 's val" where
  "val_of_int_option x = (case x of None \<Rightarrow> VNone | Some n \<Rightarrow> VInt n)"

text \<open>The \<open>while True\<close> loop of \<open>ida_star\<close>.\<close>

partial_function (option) ida_loop ::
  "nat \<Rightarrow> 's \<Rightarrow> 's \<Rightarrow> ('s \<Rightarrow> int) \<Rightarrow> ('s \<Rightarrow> ('s \<times> int) list) \<Rightarrow> bool \<Rightarrow> bool \<Rightarrow>
   int \<Rightarrow> int \<Rightarrow> 's istate \<Rightarrow> 's pydict option"
where
  "ida_loop lim start goal hfun neighbors use_bpmx return_path h0 bound st =
     (case ida_dfs lim goal hfun neighbors use_bpmx start 0 bound h0 0
             (st\<lparr>i_pathset := {start}\<rparr>) of
        None \<Rightarrow> None
      | Some r \<Rightarrow>
          let t = fst r; st1 = snd r
          in if t = TIMEOUT
             then Some (i_record st1 use_bpmx bound VNone VNone ''timeout'')
             else if t = Fin (- 1)
             then (if return_path
                   then (case ida_reconstruct_path (i_parents st1) goal of
                           None \<Rightarrow> None
                         | Some p \<Rightarrow>
                             Some (i_record st1 use_bpmx bound (VPath p)
                                     (val_of_int_option (i_solution_g st1)) ''ok''))
                   else Some (i_record st1 use_bpmx bound VNone
                                (val_of_int_option (i_solution_g st1)) ''ok''))
             else if t = Inf
             then Some (i_record st1 use_bpmx bound VNone VNone ''exhausted'')
             else ida_loop lim start goal hfun neighbors use_bpmx return_path h0
                    (case t of Fin n \<Rightarrow> n | _ \<Rightarrow> bound) st1)"

declare ida_loop.simps [code]

definition i_init :: "'s \<Rightarrow> nat option \<Rightarrow> 's istate" where
  "i_init start budget =
     \<lparr>i_expanded = 0, i_generated = 0, i_duplicates = 0, i_max_depth = 0,
      i_solution_g = None, i_ever_seen = {start}, i_parents = [start \<mapsto> None],
      i_pathset = {}, i_budget = budget\<rparr>"

definition ida_star ::
  "nat \<Rightarrow> 's \<Rightarrow> 's \<Rightarrow> ('s \<Rightarrow> int) \<Rightarrow> ('s \<Rightarrow> ('s \<times> int) list) \<Rightarrow> bool \<Rightarrow> bool \<Rightarrow>
   nat option \<Rightarrow> 's pydict option"
where
  "ida_star lim start goal hfun neighbors use_bpmx return_path budget =
     (let h0 = hfun start
      in ida_loop lim start goal hfun neighbors use_bpmx return_path h0 h0 (i_init start budget))"

section \<open>The loops, step by step\<close>

text \<open>
  The bodies of the loops are named, so that the invariants below can speak about one
  iteration.  \<open>a_node\<close> is the popped item, \<open>a_popped\<close> the state after the pop,
  \<open>a_expand\<close> the state after the expansion of the popped item.
\<close>

definition a_node :: "'s astate \<Rightarrow> 's pqitem" where
  "a_node st = snd (snd (fst (heappop (a_open st))))"

definition a_popped :: "'s astate \<Rightarrow> 's astate" where
  "a_popped st = st\<lparr>a_budget := tick (a_budget st),
                     a_peak_open := max (a_peak_open st) (int (length (a_open st))),
                     a_open := snd (heappop (a_open st))\<rparr>"

definition a_expand :: "('s \<Rightarrow> int) \<Rightarrow> ('s \<Rightarrow> ('s \<times> int) list) \<Rightarrow> string \<Rightarrow> 's astate \<Rightarrow> 's astate" where
  "a_expand hfun neighbors tie_break st =
     foldl (a_visit hfun tie_break (a_node st))
       ((a_popped st)\<lparr>a_closed := insert (it_state (a_node st)) (a_closed st),
                      a_expanded := a_expanded st + 1,
                      a_peak_closed := max (a_peak_closed st)
                         (int (card (insert (it_state (a_node st)) (a_closed st))))\<rparr>)
       (neighbors (it_state (a_node st)))"

definition a_ok_record :: "string \<Rightarrow> bool \<Rightarrow> 's astate \<Rightarrow> 's pydict" where
  "a_ok_record tie_break return_path st =
     a_record (a_popped st) tie_break
       (if return_path then VPath (reconstruct_path (a_node st)) else VNone)
       (VInt (it_g (a_node st))) ''ok''"

definition b_popped :: "'s bstate \<Rightarrow> 's bstate" where
  "b_popped st = st\<lparr>b_budget := tick (b_budget st),
                     b_peak := max (b_peak st) (int (length (b_q st))),
                     b_q := tl (b_q st)\<rparr>"

definition b_expand :: "('s \<Rightarrow> ('s \<times> int) list) \<Rightarrow> 's bstate \<Rightarrow> 's bstate" where
  "b_expand neighbors_fn st =
     foldl (b_visit (hd (b_q st))) ((b_popped st)\<lparr>b_expanded := b_expanded st + 1\<rparr>)
       (neighbors_fn (hd (b_q st)))"

definition b_ok_result :: "'s bstate \<Rightarrow> 's pydict option" where
  "b_ok_result st =
     (case bfs_walk (b_parent st) [] 0 (Some (hd (b_q st))) of
        None \<Rightarrow> None
      | Some pg \<Rightarrow> Some (b_record (b_popped st) (VPath (rev (fst pg))) (VInt (snd pg - 1)) ''ok''))"

text \<open>
  One iteration of the loop of \<open>dfs\<close>: \<open>Inl\<close> is what the iteration returns (\<open>None\<close> for
  the \<open>KeyError\<close>), \<open>Inr\<close> the state the next iteration starts from.
\<close>

definition d_step ::
  "'s \<Rightarrow> ('s \<Rightarrow> ('s \<times> int) list) \<Rightarrow> int option \<Rightarrow> 's dstate \<Rightarrow> 's pydict option + 's dstate"
where
  "d_step goal neighbors_fn max_depth st =
     (case d_stack st of
        [] \<Rightarrow> Inl (Some (d_record_of max_depth st VNone ''exhausted''))
      | frm # stk \<Rightarrow>
          if expired (d_budget st) then Inl (Some (d_record_of max_depth st VNone ''timeout''))
          else
            let s = fst frm; d = fst (snd frm); it = fst (snd (snd frm));
                did_expand = snd (snd (snd frm));
                st1 = st\<lparr>d_budget := tick (d_budget st),
                         d_peak_depth := max (d_peak_depth st) d\<rparr>
            in (case it of
                  [] \<Rightarrow>
                    if s \<in> d_on_path st1
                    then Inr (st1\<lparr>d_on_path := d_on_path st1 - {s}, d_stack := stk\<rparr>)
                    else Inl None
                | sc # it' \<Rightarrow>
                    let s2 = fst sc;
                        st2 = st1\<lparr>d_stack := (s, d, it', did_expand) # stk\<rparr>
                    in if (case max_depth of None \<Rightarrow> False | Some m \<Rightarrow> d + 1 > m)
                       then Inr st2
                       else if s2 \<in> d_on_path st2
                       then Inr (st2\<lparr>d_duplicates := d_duplicates st2 + 1\<rparr>)
                       else
                         let st3 = (if \<not> did_expand
                                    then st2\<lparr>d_expanded := d_expanded st2 + 1,
                                             d_stack := (s, d, it', True) # stk\<rparr>
                                    else st2);
                             st4 = st3\<lparr>d_generated := d_generated st3 + 1\<rparr>
                         in if s2 = goal
                            then Inl (Some (d_record_of max_depth st4 (VInt (d + 1)) ''ok''))
                            else Inr (st4\<lparr>d_on_path := insert s2 (d_on_path st4),
                                          d_stack := (s2, d + 1, neighbors_fn s2, False) # d_stack st4\<rparr>)))"

text \<open>One iteration of the \<open>while True\<close> loop of \<open>ida_star\<close>, after the call of \<open>dfs\<close>.\<close>

definition i_finish ::
  "'s \<Rightarrow> bool \<Rightarrow> bool \<Rightarrow> int \<Rightarrow> dret \<Rightarrow> 's istate \<Rightarrow> 's pydict option" where
  "i_finish goal use_bpmx return_path bound t st1 =
     (if t = TIMEOUT
      then Some (i_record st1 use_bpmx bound VNone VNone ''timeout'')
      else if t = Fin (- 1)
      then (if return_path
            then (case ida_reconstruct_path (i_parents st1) goal of
                    None \<Rightarrow> None
                  | Some p \<Rightarrow>
                      Some (i_record st1 use_bpmx bound (VPath p)
                              (val_of_int_option (i_solution_g st1)) ''ok''))
            else Some (i_record st1 use_bpmx bound VNone
                         (val_of_int_option (i_solution_g st1)) ''ok''))
      else Some (i_record st1 use_bpmx bound VNone VNone ''exhausted''))"

section \<open>Iterations of the loops\<close>

text \<open>
  One iteration of a loop either returns (\<open>Inl\<close>) or leaves the state for the next
  iteration (\<open>Inr\<close>).  \<open>iter_step step n st\<close> is the state after \<open>n\<close> iterations from
  \<open>st\<close>, none of which returns.
\<close>

primrec iter_step :: "('st \<Rightarrow> 'r + 'st) \<Rightarrow> nat \<Rightarrow> 'st \<Rightarrow> 'st option" where
  "iter_step step 0 st = Some st"
| "iter_step step (Suc n) st =
     (case step st of Inl r \<Rightarrow> None | Inr st' \<Rightarrow> iter_step step n st')"

text \<open>One iteration of \<open>while open_heap\<close> in \<open>a_star\<close>.\<close>

definition a_step ::
  "'s \<Rightarrow> ('s \<Rightarrow> int) \<Rightarrow> ('s \<Rightarrow> ('s \<times> int) list) \<Rightarrow> string \<Rightarrow> bool \<Rightarrow> 's astate \<Rightarrow>
   's pydict + 's astate"
where
  "a_step goal hfun neighbors_fn tie_break return_path st =
     (if a_open st = [] then Inl (a_record st tie_break VNone VNone ''exhausted'')
      else if expired (a_budget st) then Inl (a_record st tie_break VNone VNone ''timeout'')
      else if it_state (a_node st) \<in> a_closed st then Inr (a_popped st)
      else if it_state (a_node st) = goal then Inl (a_ok_record tie_break return_path st)
      else Inr (a_expand hfun neighbors_fn tie_break st))"

text \<open>One iteration of \<open>while q\<close> in \<open>bfs\<close>.\<close>

definition b_step ::
  "'s \<Rightarrow> ('s \<Rightarrow> ('s \<times> int) list) \<Rightarrow> 's bstate \<Rightarrow> 's pydict option + 's bstate"
where
  "b_step goal neighbors_fn st =
     (if b_q st = [] then Inl (Some (b_record st VNone VNone ''exhausted''))
      else if expired (b_budget st) then Inl (Some (b_record st VNone VNone ''timeout''))
      else if hd (b_q st) = goal then Inl (b_ok_result st)
      else Inr (b_expand neighbors_fn st))"

text \<open>
  One iteration of \<open>while True\<close> in \<open>ida_star\<close>, on the pair of the bound and the state:
  the call of \<open>dfs\<close> from the start state, then a return or the next bound.
\<close>

definition i_step ::
  "nat \<Rightarrow> 's \<Rightarrow> 's \<Rightarrow> ('s \<Rightarrow> int) \<Rightarrow> ('s \<Rightarrow> ('s \<times> int) list) \<Rightarrow> bool \<Rightarrow> bool \<Rightarrow> int \<Rightarrow>
   int \<times> 's istate \<Rightarrow> 's pydict option + int \<times> 's istate"
where
  "i_step lim start goal hfun neighbors_fn use_bpmx return_path h0 bst =
     (case ida_dfs lim goal hfun neighbors_fn use_bpmx start 0 (fst bst) h0 0
             ((snd bst)\<lparr>i_pathset := {start}\<rparr>) of
        None \<Rightarrow> Inl None
      | Some r \<Rightarrow>
          (case fst r of
             Fin n \<Rightarrow>
               if n = - 1 then Inl (i_finish goal use_bpmx return_path (fst bst) (fst r) (snd r))
               else Inr (n, snd r)
           | _ \<Rightarrow> Inl (i_finish goal use_bpmx return_path (fst bst) (fst r) (snd r))))"

text \<open>The flag \<open>expanded_flag\<close> of the top entry of the stack of \<open>dfs\<close>.\<close>

definition d_flag :: "'s dstate \<Rightarrow> bool" where
  "d_flag st = (case d_stack st of [] \<Rightarrow> False | frm # stk \<Rightarrow> snd (snd (snd frm)))"

section \<open>The 3x3 puzzle: \<open>src/domains/puzzle8.py\<close>\<close>

text \<open>
  A state is a tuple of integers, here an \<open>int list\<close>.  Where the source raises
  (\<open>ValueError\<close> of \<open>s.index(0)\<close>, \<open>KeyError\<close> of a table, \<open>IndexError\<close> of an index
  out of range) the function returns \<open>None\<close>.
\<close>

definition GOAL :: "int list" where
  "GOAL = [1, 2, 3, 4, 5, 6, 7, 8, 0]"

fun index_of :: "int \<Rightarrow> int list \<Rightarrow> nat option" where
  "index_of x [] = None"
| "index_of x (y # ys) = (if y = x then Some 0 else map_option Suc (index_of x ys))"

definition NEI :: "nat \<Rightarrow> nat list option" where
  "NEI i =
     (if i = 0 then Some [1, 3]
      else if i = 1 then Some [0, 2, 4]
      else if i = 2 then Some [1, 5]
      else if i = 3 then Some [0, 4, 6]
      else if i = 4 then Some [1, 3, 5, 7]
      else if i = 5 then Some [2, 4, 8]
      else if i = 6 then Some [3, 7]
      else if i = 7 then Some [4, 6, 8]
      else if i = 8 then Some [5, 7]
      else None)"

text \<open>\<open>lst[i], lst[j] = lst[j], lst[i]\<close> on a copy of the tuple.\<close>

definition swap_at :: "int list \<Rightarrow> nat \<Rightarrow> nat \<Rightarrow> int list" where
  "swap_at s i j = (s[i := s ! j])[j := s ! i]"

definition moves :: "int list \<Rightarrow> nat \<Rightarrow> nat list \<Rightarrow> (int list \<times> int) list option" where
  "moves s i js =
     (if \<forall>j \<in> set js. j < length s then Some (map (\<lambda>j. (swap_at s i j, 1)) js) else None)"

definition neighbors :: "int list \<Rightarrow> (int list \<times> int) list option" where
  "neighbors s =
     (case index_of 0 s of
        None \<Rightarrow> None
      | Some i \<Rightarrow> (case NEI i of None \<Rightarrow> None | Some js \<Rightarrow> moves s i js))"

text \<open>The two nested loops that count the inversions of \<open>arr\<close>.\<close>

definition inversions :: "int list \<Rightarrow> nat" where
  "inversions arr =
     foldl (\<lambda>inv i. foldl (\<lambda>inv j. if arr ! i > arr ! j then inv + 1 else inv) inv
                       [i + 1 ..< length arr])
       0 [0 ..< length arr]"

definition is_solvable :: "int list \<Rightarrow> bool" where
  "is_solvable s = (inversions (filter (\<lambda>x. x \<noteq> 0) s) mod 2 = 0)"

text \<open>
  \<open>random.Random(seed)\<close> is not modelled.  The generator is a sequence \<open>rnd\<close> of natural
  numbers, and the \<open>k\<close>-th call \<open>rng.choice(cand)\<close> returns
  \<open>cand[rnd k mod len(cand)]\<close>; every seed is one such sequence.  \<open>choice\<close> of an empty
  list raises \<open>IndexError\<close>.
\<close>

definition candidates :: "nat list \<Rightarrow> nat option \<Rightarrow> nat list" where
  "candidates nei last_blank =
     (case last_blank of
        None \<Rightarrow> nei
      | Some b \<Rightarrow> if b \<in> set nei \<and> length nei > 1 then remove1 b nei else nei)"

definition choice :: "(nat \<Rightarrow> nat) \<Rightarrow> nat \<Rightarrow> nat list \<Rightarrow> nat option" where
  "choice rnd k cand = (if cand = [] then None else Some (cand ! (rnd k mod length cand)))"

fun scramble_loop ::
  "(nat \<Rightarrow> nat list option) \<Rightarrow> (nat \<Rightarrow> nat) \<Rightarrow> nat \<Rightarrow> nat \<Rightarrow> int list \<Rightarrow> nat option \<Rightarrow>
   int list option"
where
  "scramble_loop nei rnd k 0 s last_blank = Some s"
| "scramble_loop nei rnd k (Suc n) s last_blank =
     (case index_of 0 s of
        None \<Rightarrow> None
      | Some z \<Rightarrow>
          (case nei z of
             None \<Rightarrow> None
           | Some js \<Rightarrow>
               (case choice rnd k (candidates js last_blank) of
                  None \<Rightarrow> None
                | Some j \<Rightarrow>
                    if j < length s
                    then scramble_loop nei rnd (Suc k) n (swap_at s z j) (Some z)
                    else None)))"

definition scramble :: "int \<Rightarrow> (nat \<Rightarrow> nat) \<Rightarrow> int list option" where
  "scramble depth rnd = scramble_loop NEI rnd 0 (nat depth) GOAL None"

text \<open>\<open>_goal_pos\<close> maps \<open>GOAL[i]\<close> to \<open>(i // 3, i % 3)\<close>.\<close>

definition goal_pos :: "int \<Rightarrow> (int \<times> int) option" where
  "goal_pos t = map_option (\<lambda>i. (int i div 3, int i mod 3)) (index_of t GOAL)"

fun manhattan_loop :: "nat \<Rightarrow> int list \<Rightarrow> int \<Rightarrow> int option" where
  "manhattan_loop idx [] dist = Some dist"
| "manhattan_loop idx (tile # rest) dist =
     (if tile = 0 then manhattan_loop (Suc idx) rest dist
      else (case goal_pos tile of
              None \<Rightarrow> None
            | Some gp \<Rightarrow>
                manhattan_loop (Suc idx) rest
                  (dist + \<bar>int idx div 3 - fst gp\<bar> + \<bar>int idx mod 3 - snd gp\<bar>)))"

definition manhattan :: "int list \<Rightarrow> int option" where
  "manhattan s = manhattan_loop 0 s 0"







text \<open>
  The search functions take a total successor function and a total heuristic.  On a state
  where the domain function raises, the search would be aborted by the exception; the
  wrappers below are used on well-formed states, where nothing raises.
\<close>

definition neighbors_fn8 :: "int list \<Rightarrow> (int list \<times> int) list" where
  "neighbors_fn8 s = (case neighbors s of None \<Rightarrow> [] | Some out \<Rightarrow> out)"

definition hfun_of :: "(int list \<Rightarrow> int option) \<Rightarrow> int list \<Rightarrow> int" where
  "hfun_of h s = (case h s of None \<Rightarrow> 0 | Some v \<Rightarrow> v)"

section \<open>The rectangular and the square puzzle: \<open>puzzlemn.py\<close>, \<open>puzzlen.py\<close>\<close>

text \<open>
  \<open>RectPuzzle(rows, cols)\<close> asserts \<open>rows >= 2 and cols >= 2\<close>; \<open>NPuzzle(n)\<close> asserts
  \<open>n >= 2\<close>.  An object is the pair of its dimensions; the tables \<open>GOAL\<close> and \<open>_nei\<close> that
  the constructor fills are functions of them.  \<open>_nei\<close> has the keys \<open>0 .. size - 1\<close>.
\<close>

record rect_puzzle =
  rp_R :: nat
  rp_C :: nat

definition RectPuzzle :: "int \<Rightarrow> int \<Rightarrow> rect_puzzle option" where
  "RectPuzzle rows cols =
     (if rows \<ge> 2 \<and> cols \<ge> 2 then Some \<lparr>rp_R = nat rows, rp_C = nat cols\<rparr> else None)"

definition NPuzzle :: "int \<Rightarrow> rect_puzzle option" where
  "NPuzzle n = (if n \<ge> 2 then Some \<lparr>rp_R = nat n, rp_C = nat n\<rparr> else None)"

definition rp_size :: "rect_puzzle \<Rightarrow> nat" where
  "rp_size p = rp_R p * rp_C p"

definition rp_GOAL :: "rect_puzzle \<Rightarrow> int list" where
  "rp_GOAL p = map int [1 ..< rp_size p] @ [0]"

definition rp_nei :: "rect_puzzle \<Rightarrow> nat \<Rightarrow> nat list option" where
  "rp_nei p i =
     (if i < rp_size p
      then (let r = i div rp_C p; c = i mod rp_C p
            in Some ((if r > 0 then [i - rp_C p] else [])
                   @ (if int r < int (rp_R p) - 1 then [i + rp_C p] else [])
                   @ (if c > 0 then [i - 1] else [])
                   @ (if int c < int (rp_C p) - 1 then [i + 1] else [])))
      else None)"

definition rp_scramble :: "rect_puzzle \<Rightarrow> int \<Rightarrow> (nat \<Rightarrow> nat) \<Rightarrow> int list option" where
  "rp_scramble p depth rnd = scramble_loop (rp_nei p) rnd 0 (nat depth) (rp_GOAL p) None"

text \<open>\<open>RectPuzzle.is_solvable\<close>: the width \<open>C\<close> decides, the blank row is counted in \<open>R\<close>.\<close>

definition rect_is_solvable :: "rect_puzzle \<Rightarrow> int list \<Rightarrow> bool option" where
  "rect_is_solvable p s =
     (let inv = inversions (filter (\<lambda>x. x \<noteq> 0) s)
      in if rp_C p mod 2 = 1 then Some (inv mod 2 = 0)
         else (case index_of 0 s of
                 None \<Rightarrow> None
               | Some z \<Rightarrow>
                   let blank_row_top_idx = z div rp_C p;
                       blank_row_from_bottom = int (rp_R p) - int blank_row_top_idx
                   in Some ((int inv + blank_row_from_bottom) mod 2 = 1)))"

text \<open>\<open>NPuzzle.is_solvable\<close>: the same rule, written with \<open>N\<close> for both dimensions.\<close>

definition n_is_solvable :: "rect_puzzle \<Rightarrow> int list \<Rightarrow> bool option" where
  "n_is_solvable p s =
     (let N = rp_R p; inv = inversions (filter (\<lambda>x. x \<noteq> 0) s)
      in if N mod 2 = 1 then Some (inv mod 2 = 0)
         else (case index_of 0 s of
                 None \<Rightarrow> None
               | Some z \<Rightarrow>
                   let blank_row_top_idx = z div N;
                       blank_row_from_bottom = int N - int blank_row_top_idx
                   in Some ((int inv + blank_row_from_bottom) mod 2 = 1)))"

section \<open>Reading a result record\<close>

definition is_ok :: "'s pydict \<Rightarrow> bool" where
  "is_ok r = (r K_termination = Some (VStr ''ok''))"

definition g_present :: "'s pydict \<Rightarrow> bool" where
  "g_present r = (\<exists>n. r K_g = Some (VInt n))"

definition has_counter :: "'s pydict \<Rightarrow> key \<Rightarrow> bool" where
  "has_counter r k = (\<exists>n. r k = Some (VInt n))"

definition all_zero_ok :: "'s pydict \<Rightarrow> bool" where
  "all_zero_ok r =
     (r K_termination = Some (VStr ''ok'') \<and> r K_g = Some (VInt 0) \<and>
      r K_expanded = Some (VInt 0) \<and> r K_generated = Some (VInt 0))"

text \<open>What the nested \<open>dfs\<close> of \<open>ida_star\<close> can return for a bound.\<close>

definition ret_ok :: "int \<Rightarrow> dret \<Rightarrow> 's istate \<Rightarrow> bool" where
  "ret_ok bound t st =
     (case t of
        TIMEOUT \<Rightarrow> True
      | Inf \<Rightarrow> True
      | Fin n \<Rightarrow> n > bound \<or> n = - 1 \<and> i_solution_g st \<noteq> None)"

text \<open>
  The invariant of the result record: the cost is present exactly when the termination is
  \<open>ok\<close>, and the counters \<open>expanded\<close> and \<open>generated\<close> are present.
\<close>

definition run_inv :: "'s pydict \<Rightarrow> bool" where
  "run_inv r = (g_present r = is_ok r \<and> has_counter r K_expanded \<and> has_counter r K_generated)"

definition has_three_counters :: "'s pydict \<Rightarrow> bool" where
  "has_three_counters r =
     (has_counter r K_expanded \<and> has_counter r K_generated \<and> has_counter r K_duplicates)"

definition not_ok_term :: "string \<Rightarrow> bool" where
  "not_ok_term term = (term = ''timeout'' \<or> term = ''exhausted'')"

text \<open>The record reports \<open>e\<close> expanded and \<open>g\<close> generated states.\<close>

definition counters_are :: "'s pydict \<Rightarrow> int \<Rightarrow> int \<Rightarrow> bool" where
  "counters_are r e g = (r K_expanded = Some (VInt e) \<and> r K_generated = Some (VInt g))"

section \<open>Inversions, recursively\<close>

text \<open>The number of pairs \<open>i < j\<close> with \<open>arr[i] > arr[j]\<close>, by recursion on the list.\<close>

fun inv_count :: "int list \<Rightarrow> nat" where
  "inv_count [] = 0"
| "inv_count (x # xs) = length (filter (\<lambda>y. x > y) xs) + inv_count xs"

text \<open>
  A well-formed state of a board with \<open>n\<close> cells holds each of \<open>0 .. n - 1\<close> once.  Two
  cells of a board with \<open>C\<close> columns are adjacent when they are neighbours in a row or in a
  column.
\<close>

definition valid_state :: "nat \<Rightarrow> int list \<Rightarrow> bool" where
  "valid_state n s = (length s = n \<and> set s = int ` {0 ..< n})"

definition adjacent :: "nat \<Rightarrow> nat \<Rightarrow> nat \<Rightarrow> bool" where
  "adjacent C z j =
     (j = z + C \<or> z = j + C \<or> (j = z + 1 \<and> z div C = j div C) \<or> (z = j + 1 \<and> z div C = j div C))"

definition legal_table :: "nat \<Rightarrow> nat \<Rightarrow> (nat \<Rightarrow> nat list option) \<Rightarrow> bool" where
  "legal_table R C nei =
     (\<forall>z < R * C. \<exists>js. nei z = Some js \<and> js \<noteq> [] \<and> (\<forall>j \<in> set js. j < R * C \<and> adjacent C z j))"

text \<open>The inversions among the tiles of a state.\<close>

definition tiles_inv :: "int list \<Rightarrow> nat" where
  "tiles_inv s = inv_count (filter (\<lambda>x. x \<noteq> 0) s)"

section \<open>Paths of a transition function\<close>









section \<open>Invariant rules for the loops\<close>

lemma a_star_loop_unfold:
  "a_star_loop goal hfun nbrs tie_break return_path st =
     (if a_open st = [] then Some (a_record st tie_break VNone VNone ''exhausted'')
      else if expired (a_budget st) then Some (a_record st tie_break VNone VNone ''timeout'')
      else if it_state (a_node st) \<in> a_closed st
      then a_star_loop goal hfun nbrs tie_break return_path (a_popped st)
      else if it_state (a_node st) = goal then Some (a_ok_record tie_break return_path st)
      else a_star_loop goal hfun nbrs tie_break return_path (a_expand hfun nbrs tie_break st))"
  by (subst a_star_loop.simps)
     (simp add: Let_def a_node_def a_popped_def a_expand_def a_ok_record_def)

lemma a_star_loop_rule:
  assumes run: "a_star_loop goal hfun nbrs tie_break return_path st = Some r"
    and init: "I st"
    and skip: "\<And>st. I st \<Longrightarrow> a_open st \<noteq> [] \<Longrightarrow> \<not> expired (a_budget st) \<Longrightarrow>
                 it_state (a_node st) \<in> a_closed st \<Longrightarrow> I (a_popped st)"
    and expand: "\<And>st. I st \<Longrightarrow> a_open st \<noteq> [] \<Longrightarrow> \<not> expired (a_budget st) \<Longrightarrow>
                 it_state (a_node st) \<notin> a_closed st \<Longrightarrow> it_state (a_node st) \<noteq> goal \<Longrightarrow>
                 I (a_expand hfun nbrs tie_break st)"
  shows "\<exists>st'. I st' \<and>
           (a_open st' = [] \<and> r = a_record st' tie_break VNone VNone ''exhausted''
            \<or> a_open st' \<noteq> [] \<and> expired (a_budget st') \<and>
                r = a_record st' tie_break VNone VNone ''timeout''
            \<or> a_open st' \<noteq> [] \<and> \<not> expired (a_budget st') \<and>
                it_state (a_node st') \<notin> a_closed st' \<and> it_state (a_node st') = goal \<and>
                r = a_ok_record tie_break return_path st')"
proof -
  let ?Q = "\<lambda>r st'. a_open st' = [] \<and> r = a_record st' tie_break VNone VNone ''exhausted''
            \<or> a_open st' \<noteq> [] \<and> expired (a_budget st') \<and>
                r = a_record st' tie_break VNone VNone ''timeout''
            \<or> a_open st' \<noteq> [] \<and> \<not> expired (a_budget st') \<and>
                it_state (a_node st') \<notin> a_closed st' \<and> it_state (a_node st') = goal \<and>
                r = a_ok_record tie_break return_path st'"
  let ?P = "\<lambda>g h n t p s y. g = goal \<and> h = hfun \<and> n = nbrs \<and> t = tie_break \<and>
              p = return_path \<and> I s \<longrightarrow> (\<exists>st'. I st' \<and> ?Q y st')"
  have "?P goal hfun nbrs tie_break return_path st r"
  proof (rule a_star_loop.raw_induct[where P = ?P, OF _ run], intro impI, elim conjE)
    fix f :: "'a \<Rightarrow> ('a \<Rightarrow> int) \<Rightarrow> ('a \<Rightarrow> ('a \<times> int) list) \<Rightarrow> string \<Rightarrow> bool \<Rightarrow> 'a astate \<Rightarrow> 'a pydict option"
    fix g h n t p s y
    assume IH: "\<And>h' n' t' p' s' b y. f h' n' t' p' s' b = Some y \<Longrightarrow> ?P h' n' t' p' s' b y"
    assume body: "(if a_open s = [] then Some (a_record s t VNone VNone ''exhausted'')
      else if expired (a_budget s) then Some (a_record s t VNone VNone ''timeout'')
      else
        let st1 = s\<lparr>a_budget := tick (a_budget s),
                     a_peak_open := max (a_peak_open s) (int (length (a_open s)))\<rparr>;
            node = snd (snd (fst (heappop (a_open st1))));
            st2 = st1\<lparr>a_open := snd (heappop (a_open st1))\<rparr>
        in if it_state node \<in> a_closed st2
           then f g h n t p st2
           else if it_state node = g
           then Some (a_record st2 t
                        (if p then VPath (reconstruct_path node) else VNone)
                        (VInt (it_g node)) ''ok'')
           else
             let st3 = st2\<lparr>a_closed := insert (it_state node) (a_closed st2),
                           a_expanded := a_expanded st2 + 1\<rparr>;
                 st4 = st3\<lparr>a_peak_closed := max (a_peak_closed st3) (int (card (a_closed st3)))\<rparr>
             in f g h n t p
                  (foldl (a_visit h t node) st4 (n (it_state node)))) = Some y"
    assume eqs: "g = goal" "h = hfun" "n = nbrs" "t = tie_break" "p = return_path" and Is: "I s"
    have body': "(if a_open s = [] then Some (a_record s t VNone VNone ''exhausted'')
      else if expired (a_budget s) then Some (a_record s t VNone VNone ''timeout'')
      else if it_state (a_node s) \<in> a_closed s
      then f g h n t p (a_popped s)
      else if it_state (a_node s) = g then Some (a_ok_record t p s)
      else f g h n t p (a_expand h n t s)) = Some y"
      using body by (simp add: Let_def a_node_def a_popped_def a_expand_def a_ok_record_def split del: if_split cong: if_cong)
    show "\<exists>st'. I st' \<and> ?Q y st'"
    proof (cases "a_open s = []")
      case True
      then show ?thesis using body' Is eqs by (intro exI[of _ s]) auto
    next
      case ne: False
      show ?thesis
      proof (cases "expired (a_budget s)")
        case True
        then show ?thesis using body' Is ne eqs by (intro exI[of _ s]) auto
      next
        case nex: False
        show ?thesis
        proof (cases "it_state (a_node s) \<in> a_closed s")
          case True
          then have "f g h n t p (a_popped s) = Some y" using body' ne nex by simp
          from IH[OF this] skip[OF Is ne nex True] eqs show ?thesis by simp
        next
          case ncl: False
          show ?thesis
          proof (cases "it_state (a_node s) = g")
            case True
            then show ?thesis using body' Is ne nex ncl eqs by (intro exI[of _ s]) auto
          next
            case False
            then have "f g h n t p (a_expand h n t s) = Some y" using body' ne nex ncl by simp
            from IH[OF this] expand[OF Is ne nex ncl] False eqs show ?thesis by simp
          qed
        qed
      qed
    qed
  qed
  with init show ?thesis by simp
qed

lemma bfs_loop_unfold:
  "bfs_loop goal neighbors_fn st =
     (if b_q st = [] then Some (b_record st VNone VNone ''exhausted'')
      else if expired (b_budget st) then Some (b_record st VNone VNone ''timeout'')
      else if hd (b_q st) = goal then b_ok_result st
      else bfs_loop goal neighbors_fn (b_expand neighbors_fn st))"
  by (subst bfs_loop.simps)
     (simp add: Let_def b_popped_def b_expand_def b_ok_result_def cong: option.case_cong)

lemma bfs_loop_rule:
  assumes run: "bfs_loop goal neighbors_fn st = Some r"
    and init: "I st"
    and step: "\<And>st. I st \<Longrightarrow> b_q st \<noteq> [] \<Longrightarrow> \<not> expired (b_budget st) \<Longrightarrow>
                 hd (b_q st) \<noteq> goal \<Longrightarrow> I (b_expand neighbors_fn st)"
  shows "\<exists>st'. I st' \<and>
           (b_q st' = [] \<and> r = b_record st' VNone VNone ''exhausted''
            \<or> b_q st' \<noteq> [] \<and> expired (b_budget st') \<and> r = b_record st' VNone VNone ''timeout''
            \<or> b_q st' \<noteq> [] \<and> \<not> expired (b_budget st') \<and> hd (b_q st') = goal \<and>
                b_ok_result st' = Some r)"
proof -
  let ?Q = "\<lambda>r st'. b_q st' = [] \<and> r = b_record st' VNone VNone ''exhausted''
            \<or> b_q st' \<noteq> [] \<and> expired (b_budget st') \<and> r = b_record st' VNone VNone ''timeout''
            \<or> b_q st' \<noteq> [] \<and> \<not> expired (b_budget st') \<and> hd (b_q st') = goal \<and>
                b_ok_result st' = Some r"
  let ?P = "\<lambda>g n s y. g = goal \<and> n = neighbors_fn \<and> I s \<longrightarrow> (\<exists>st'. I st' \<and> ?Q y st')"
  have "?P goal neighbors_fn st r"
  proof (rule bfs_loop.raw_induct[where P = ?P, OF _ run], goal_cases)
    case (1 f g n s y)
    show ?case
    proof (intro impI, elim conjE)
      assume eqs: "g = goal" "n = neighbors_fn" and Is: "I s"
      have body: "(if b_q s = [] then Some (b_record s VNone VNone ''exhausted'')
          else if expired (b_budget s) then Some (b_record s VNone VNone ''timeout'')
          else if hd (b_q s) = g then b_ok_result s
          else f g n (b_expand n s)) = Some y"
        using 1(2)
        by (simp add: Let_def b_popped_def b_expand_def b_ok_result_def
              split del: if_split cong: if_cong option.case_cong)
      show "\<exists>st'. I st' \<and> ?Q y st'"
      proof (cases "b_q s = [] \<or> expired (b_budget s) \<or> hd (b_q s) = g")
        case True
        then show ?thesis using body Is eqs by (intro exI[of _ s]) (auto split: if_splits)
      next
        case False
        then have "f g n (b_expand n s) = Some y" using body by simp
        from 1(1)[OF this] step[OF Is] False eqs show ?thesis by simp
      qed
    qed
  qed
  with init show ?thesis by simp
qed

lemma dfs_loop_unfold:
  "dfs_loop goal neighbors_fn max_depth st =
     (case d_step goal neighbors_fn max_depth st of
        Inl res \<Rightarrow> res
      | Inr st' \<Rightarrow> dfs_loop goal neighbors_fn max_depth st')"
  by (subst dfs_loop.simps)
     (simp add: Let_def d_step_def split: list.split option.split)

lemma dfs_loop_rule:
  assumes run: "dfs_loop goal neighbors_fn max_depth st = Some r"
    and init: "I st"
    and step: "\<And>st st'. I st \<Longrightarrow> d_step goal neighbors_fn max_depth st = Inr st' \<Longrightarrow> I st'"
  shows "\<exists>st'. I st' \<and> d_step goal neighbors_fn max_depth st' = Inl (Some r)"
proof -
  let ?P = "\<lambda>g n m s y. g = goal \<and> n = neighbors_fn \<and> m = max_depth \<and> I s \<longrightarrow>
              (\<exists>st'. I st' \<and> d_step goal neighbors_fn max_depth st' = Inl (Some y))"
  have "?P goal neighbors_fn max_depth st r"
  proof (rule dfs_loop.raw_induct[where P = ?P, OF _ run], goal_cases)
    case (1 f g n m s y)
    show ?case
    proof (intro impI, elim conjE)
      assume eqs: "g = goal" "n = neighbors_fn" "m = max_depth" and Is: "I s"
      have body: "(case d_step g n m s of Inl res \<Rightarrow> res | Inr st' \<Rightarrow> f g n m st') = Some y"
        using 1(2)
        by (auto simp add: Let_def d_step_def split: list.splits option.splits if_splits)
      show "\<exists>st'. I st' \<and> d_step goal neighbors_fn max_depth st' = Inl (Some y)"
      proof (cases "d_step g n m s")
        case (Inl res)
        then show ?thesis using body Is eqs by (intro exI[of _ s]) simp
      next
        case (Inr st')
        then have "f g n m st' = Some y" using body by simp
        from 1(1)[OF this] step[OF Is] Inr eqs show ?thesis by simp
      qed
    qed
  qed
  with init show ?thesis by simp
qed

lemma ida_loop_unfold:
  "ida_loop lim start goal hfun nbrs use_bpmx return_path h0 bound st =
     (case ida_dfs lim goal hfun nbrs use_bpmx start 0 bound h0 0
             (st\<lparr>i_pathset := {start}\<rparr>) of
        None \<Rightarrow> None
      | Some r \<Rightarrow>
          (case fst r of
             Fin n \<Rightarrow>
               if n = - 1 then i_finish goal use_bpmx return_path bound (fst r) (snd r)
               else ida_loop lim start goal hfun nbrs use_bpmx return_path h0 n (snd r)
           | _ \<Rightarrow> i_finish goal use_bpmx return_path bound (fst r) (snd r)))"
  by (subst ida_loop.simps)
     (simp add: Let_def i_finish_def split: option.split dret.split)

lemma ida_loop_rule:
  assumes run: "ida_loop lim start goal hfun nbrs use_bpmx return_path h0 bound st = Some r"
    and init: "I bound st"
    and step: "\<And>bound st n st1. I bound st \<Longrightarrow>
                 ida_dfs lim goal hfun nbrs use_bpmx start 0 bound h0 0
                   (st\<lparr>i_pathset := {start}\<rparr>) = Some (Fin n, st1) \<Longrightarrow> n \<noteq> - 1 \<Longrightarrow> I n st1"
  shows "\<exists>bound' st' t st1. I bound' st' \<and>
           ida_dfs lim goal hfun nbrs use_bpmx start 0 bound' h0 0
             (st'\<lparr>i_pathset := {start}\<rparr>) = Some (t, st1) \<and>
           (t = TIMEOUT \<or> t = Fin (- 1) \<or> t = Inf) \<and>
           i_finish goal use_bpmx return_path bound' t st1 = Some r"
proof -
  let ?Q = "\<lambda>y. \<exists>bound' st' t st1. I bound' st' \<and>
           ida_dfs lim goal hfun nbrs use_bpmx start 0 bound' h0 0
             (st'\<lparr>i_pathset := {start}\<rparr>) = Some (t, st1) \<and>
           (t = TIMEOUT \<or> t = Fin (- 1) \<or> t = Inf) \<and>
           i_finish goal use_bpmx return_path bound' t st1 = Some y"
  let ?P = "\<lambda>l s g h n u p h0' b x y. l = lim \<and> s = start \<and> g = goal \<and> h = hfun \<and>
              n = nbrs \<and> u = use_bpmx \<and> p = return_path \<and> h0' = h0 \<and> I b x \<longrightarrow> ?Q y"
  have "?P lim start goal hfun nbrs use_bpmx return_path h0 bound st r"
  proof (rule ida_loop.raw_induct[where P = ?P, OF _ run], goal_cases)
    case (1 f l s g h n u p h0' b x y)
    show ?case
    proof (intro impI, elim conjE)
      assume eqs: "l = lim" "s = start" "g = goal" "h = hfun" "n = nbrs" "u = use_bpmx"
        "p = return_path" "h0' = h0" and Is: "I b x"
      have body: "(case ida_dfs l g h n u s 0 b h0' 0 (x\<lparr>i_pathset := {s}\<rparr>) of
          None \<Rightarrow> None
        | Some r \<Rightarrow>
          (case fst r of
             Fin k \<Rightarrow>
               if k = - 1 then i_finish g u p b (fst r) (snd r)
               else f l s g h n u p h0' k (snd r)
           | _ \<Rightarrow> i_finish g u p b (fst r) (snd r))) = Some y"
        using 1(2)
        by (auto simp add: Let_def i_finish_def split: option.splits dret.splits if_splits)
      then obtain t st1 where
        dfs: "ida_dfs l g h n u s 0 b h0' 0 (x\<lparr>i_pathset := {s}\<rparr>) = Some (t, st1)"
        by (cases "ida_dfs l g h n u s 0 b h0' 0 (x\<lparr>i_pathset := {s}\<rparr>)") auto
      show "?Q y"
      proof (cases "\<exists>k. t = Fin k \<and> k \<noteq> - 1")
        case True
        then obtain k where k: "t = Fin k" "k \<noteq> - 1" by blast
        with body dfs have "f l s g h n u p h0' k st1 = Some y" by simp
        moreover have "I k st1" using step[OF Is[unfolded eqs]] dfs k eqs by simp
        ultimately show ?thesis using 1(1) eqs by blast
      next
        case False
        then have t: "t = TIMEOUT \<or> t = Fin (- 1) \<or> t = Inf" by (cases t) auto
        then have "i_finish g u p b t st1 = Some y" using body dfs by auto
        with Is dfs t eqs show ?thesis by blast
      qed
    qed
  qed
  with init show ?thesis by simp
qed

section \<open>Runs with start = goal\<close>

lemma heappop_single: "heappop [e] = (e, [])"
  by (simp add: heappop_def)

lemma a_star_start_goal:
  "\<not> expired budget \<Longrightarrow>
   \<exists>r. a_star s s hfun nbrs tie_break return_path budget = Some r \<and> all_zero_ok r"
  by (simp add: a_star_def a_init_def a_star_loop_unfold heappush_def a_node_def Let_def
        heappop_single a_ok_record_def a_record_def a_popped_def all_zero_ok_def
        split del: if_split)

lemma bfs_walk_root: "parent s = Some None \<Longrightarrow> bfs_walk parent [] 0 (Some s) = Some ([s], 1)"
  by (subst bfs_walk.simps, simp, subst bfs_walk.simps, simp)

lemma bfs_start_goal:
  "\<not> expired budget \<Longrightarrow> \<exists>r. bfs s s nbrs budget = Some r \<and> all_zero_ok r"
  by (simp add: bfs_def b_init_def bfs_loop_unfold b_ok_result_def bfs_walk_root
        b_record_def b_popped_def all_zero_ok_def split del: if_split)

lemma dfs_start_goal: "\<exists>r. dfs s s nbrs max_depth budget = Some r \<and> all_zero_ok r"
  by (simp add: dfs_def d_record_def all_zero_ok_def)

lemma ida_walk_root:
  "parents s = Some None \<Longrightarrow> ida_walk parents [] (Some s) = Some [s]"
  by (subst ida_walk.simps, simp, subst ida_walk.simps, simp)

lemma ida_star_start_goal:
  "\<not> expired budget \<Longrightarrow>
   \<exists>r. ida_star (Suc lim) s s hfun nbrs use_bpmx return_path budget = Some r \<and> all_zero_ok r"
  by (cases return_path)
     (simp_all add: ida_star_def i_init_def ida_loop_unfold i_finish_def Let_def
        ida_reconstruct_path_def ida_walk_root i_record_def val_of_int_option_def
        all_zero_ok_def split del: if_split)

text \<open>
  C10, amended.  When start and goal are the same state, \<open>dfs\<close> returns termination
  \<open>ok\<close> with \<open>g = 0\<close>, \<open>expanded = 0\<close> and \<open>generated = 0\<close>, whatever the timeout; so do
  \<open>a_star\<close>, \<open>ida_star\<close> and \<open>bfs\<close> when the deadline has not passed at their first
  check (in particular without a timeout).  No assumption on the heuristic is needed.
\<close>

theorem start_equals_goal:
  "\<not> expired budget \<Longrightarrow>
   (\<exists>r. a_star s s hfun nbrs tie_break return_path budget = Some r \<and> all_zero_ok r) \<and>
   (\<exists>r. ida_star (Suc lim) s s hfun nbrs use_bpmx return_path budget = Some r \<and> all_zero_ok r) \<and>
   (\<exists>r. bfs s s nbrs budget = Some r \<and> all_zero_ok r) \<and>
   (\<exists>r. dfs s s nbrs max_depth budget' = Some r \<and> all_zero_ok r)"
  by (intro conjI a_star_start_goal ida_star_start_goal bfs_start_goal dfs_start_goal)

theorem start_equals_goal_witness:
  "\<not> expired None \<and>
   (\<exists>r. a_star GOAL GOAL (hfun_of manhattan) neighbors_fn8 ''h'' True None = Some r \<and> all_zero_ok r) \<and>
   (\<exists>r. ida_star (Suc 0) GOAL GOAL (hfun_of manhattan) neighbors_fn8 False True None = Some r
        \<and> all_zero_ok r) \<and>
   (\<exists>r. bfs GOAL GOAL neighbors_fn8 None = Some r \<and> all_zero_ok r) \<and>
   (\<exists>r. dfs GOAL GOAL neighbors_fn8 (Some 3) (Some 0) = Some r \<and> all_zero_ok r)"
proof -
  have h: "\<not> expired None" by (simp add: expired_def)
  show ?thesis
    using h start_equals_goal [OF h, where s = GOAL and hfun = "hfun_of manhattan"
      and nbrs = neighbors_fn8 and tie_break = "''h''" and return_path = True and lim = 0
      and use_bpmx = False and max_depth = "Some 3" and budget' = "Some 0"]
    by blast
qed

text \<open>
  C10 as stated fails: with start = goal and a deadline that has already passed at the
  first check (\<open>timeout_sec = -1\<close>), \<open>a_star\<close> returns termination \<open>timeout\<close> and no cost.
\<close>

theorem start_equals_goal_timeout_counterexample:
  "\<exists>r. a_star GOAL GOAL (hfun_of manhattan) neighbors_fn8 ''h'' True (Some 0) = Some r \<and>
       r K_termination = Some (VStr ''timeout'') \<and> r K_g = Some VNone \<and> \<not> all_zero_ok r"
  by (simp add: a_star_def a_init_def a_star_loop_unfold heappush_def expired_def Let_def
        a_record_def all_zero_ok_def split del: if_split)

section \<open>What the nested \<open>dfs\<close> of \<open>ida_star\<close> returns\<close>

lemma ret_ok_children:
  assumes call: "\<And>s2 g2 h2 d st t st'. call s2 g2 bound h2 d st = Some (t, st') \<Longrightarrow> ret_ok bound t st'"
    and run: "ida_children call hfun use_bpmx state g bound depth h_parent min_next rest st = Some (t, st')"
    and mn: "min_next = Inf \<or> (\<exists>n. min_next = Fin n \<and> n > bound)"
  shows "ret_ok bound t st'"
  using run mn
proof (induction rest arbitrary: h_parent min_next st)
  case Nil
  then show ?case by (auto simp: ret_ok_def)
next
  case (Cons sc rest)
  show ?case
  proof (cases "fst sc \<in> i_pathset st")
    case True
    with Cons.prems(1) have "ida_children call hfun use_bpmx state g bound depth h_parent min_next rest st = Some (t, st')"
      by (simp add: Let_def)
    from Cons.IH[OF this Cons.prems(2)] show ?thesis .
  next
    case False
    let ?c = "snd sc" and ?s2 = "fst sc"
    let ?raised = "use_bpmx \<and> hfun ?s2 - ?c > h_parent"
    let ?hp = "if ?raised then hfun ?s2 - ?c else h_parent"
    show ?thesis
    proof (cases "?raised \<and> g + ?hp > bound")
      case True
      with False Cons.prems(1) have "t = Fin (g + ?hp)" by (auto simp: Let_def)
      with True show ?thesis by (auto simp: ret_ok_def)
    next
      case nocut: False
      from False nocut Cons.prems(1) obtain h2 st3 t1 st4 where
        c: "call ?s2 (g + ?c) bound h2 (depth + 1) st3 = Some (t1, st4)"
        and rest: "t1 = TIMEOUT \<and> t = TIMEOUT \<and> st' = st4 \<or> t1 = Fin (- 1) \<and> t = Fin (- 1) \<and> st' = st4 \<or>
           t1 \<noteq> TIMEOUT \<and> t1 \<noteq> Fin (- 1) \<and>
           ida_children call hfun use_bpmx state g bound depth ?hp
              (if dless t1 min_next then t1 else min_next) rest
              (st4\<lparr>i_pathset := i_pathset st4 - {?s2}\<rparr>) = Some (t, st')"
        by (auto simp: Let_def split: option.splits if_splits)
      from call[OF c] have r1: "ret_ok bound t1 st4" .
      from rest show ?thesis
      proof (elim disjE conjE)
        assume "t1 = TIMEOUT" "t = TIMEOUT" then show ?thesis by (simp add: ret_ok_def)
      next
        assume "t1 = Fin (- 1)" "t = Fin (- 1)" "st' = st4"
        with r1 show ?thesis by simp
      next
        assume a: "t1 \<noteq> TIMEOUT" "t1 \<noteq> Fin (- 1)" and
          b: "ida_children call hfun use_bpmx state g bound depth ?hp
              (if dless t1 min_next then t1 else min_next) rest
              (st4\<lparr>i_pathset := i_pathset st4 - {?s2}\<rparr>) = Some (t, st')"
        have "(if dless t1 min_next then t1 else min_next) = Inf \<or>
              (\<exists>n. (if dless t1 min_next then t1 else min_next) = Fin n \<and> n > bound)"
          using a r1 Cons.prems(2) by (cases t1) (auto simp: ret_ok_def)
        from Cons.IH[OF b this] show ?thesis .
      qed
    qed
  qed
qed

lemma ret_ok_dfs:
  "ida_dfs lim goal hfun nbrs use_bpmx state g bound h_s depth st = Some (t, st') \<Longrightarrow>
   ret_ok bound t st'"
proof (induction lim arbitrary: state g h_s depth st t st')
  case 0
  then show ?case by simp
next
  case (Suc lim)
  show ?case
  proof (cases "expired (i_budget st) \<or> g + h_s > bound \<or> state = goal")
    case True
    with Suc.prems show ?thesis by (auto simp: Let_def ret_ok_def split: if_splits)
  next
    case False
    with Suc.prems have
      "ida_children (ida_dfs lim goal hfun nbrs use_bpmx) hfun use_bpmx state g bound depth h_s Inf
         (nbrs state)
         (st\<lparr>i_budget := tick (i_budget st), i_max_depth := max (i_max_depth st) depth,
              i_expanded := i_expanded st + 1\<rparr>) = Some (t, st')"
      by (simp add: Let_def)
    then show ?thesis
      by (rule ret_ok_children[rotated]) (auto intro: Suc.IH)
  qed
qed

section \<open>The invariant of the result record\<close>

lemma run_inv_a_record:
  "run_inv (a_record st tb path g term) = ((\<exists>n. g = VInt n) = (term = ''ok''))"
  "has_three_counters (a_record st tb path g term)"
  by (auto simp: run_inv_def has_three_counters_def a_record_def g_present_def is_ok_def
        has_counter_def)

lemma run_inv_i_record:
  "run_inv (i_record st bp bound path g term) = ((\<exists>n. g = VInt n) = (term = ''ok''))"
  "has_three_counters (i_record st bp bound path g term)"
  by (auto simp: run_inv_def has_three_counters_def i_record_def g_present_def is_ok_def
        has_counter_def)

lemma run_inv_d_record:
  "run_inv (d_record md g e ge du pk term) = ((\<exists>n. g = VInt n) = (term = ''ok''))"
  "has_three_counters (d_record md g e ge du pk term)"
  by (auto simp: run_inv_def has_three_counters_def d_record_def g_present_def is_ok_def
        has_counter_def)

lemma run_inv_b_record:
  "run_inv (b_record st path g term) = ((\<exists>n. g = VInt n) = (term = ''ok''))"
  "has_counter (b_record st path g term) K_expanded"
  "has_counter (b_record st path g term) K_generated"
  "b_record st path g term K_duplicates = None"
  by (auto simp: run_inv_def b_record_def g_present_def is_ok_def has_counter_def)

lemma a_star_result:
  assumes "a_star start goal hfun nbrs tie_break return_path budget = Some r"
  shows "run_inv r \<and> has_three_counters r"
proof -
  from a_star_loop_rule[OF assms[unfolded a_star_def], of "\<lambda>_. True"]
  show ?thesis unfolding a_ok_record_def by (auto simp: run_inv_a_record)
qed

lemma bfs_result:
  assumes "bfs start goal nbrs budget = Some r"
  shows "run_inv r \<and> has_counter r K_expanded \<and> has_counter r K_generated \<and>
         r K_duplicates = None"
proof -
  from bfs_loop_rule[OF assms[unfolded bfs_def], of "\<lambda>_. True"]
  show ?thesis unfolding b_ok_result_def
    by (auto simp: run_inv_b_record split: option.splits)
qed

lemma d_step_result:
  "d_step goal nbrs max_depth st = Inl (Some r) \<Longrightarrow> run_inv r \<and> has_three_counters r"
  unfolding d_step_def d_record_of_def
  by (auto simp: Let_def run_inv_d_record split: list.splits if_splits option.splits)

lemma dfs_result:
  assumes "dfs start goal nbrs max_depth budget = Some r"
  shows "run_inv r \<and> has_three_counters r"
proof (cases "start = goal")
  case True
  with assms show ?thesis by (auto simp: dfs_def run_inv_d_record)
next
  case False
  with assms have "dfs_loop goal nbrs max_depth (d_init start nbrs budget) = Some r"
    by (simp add: dfs_def)
  from dfs_loop_rule[OF this, of "\<lambda>_. True"]
  obtain st' where "d_step goal nbrs max_depth st' = Inl (Some r)" by blast
  then show ?thesis by (rule d_step_result)
qed

lemma ida_loop_finish:
  assumes run: "ida_star lim start goal hfun nbrs use_bpmx return_path budget = Some r"
  shows "\<exists>bound st t st1.
           ida_dfs lim goal hfun nbrs use_bpmx start 0 bound (hfun start) 0
             (st\<lparr>i_pathset := {start}\<rparr>) = Some (t, st1) \<and>
           (t = TIMEOUT \<or> t = Fin (- 1) \<or> t = Inf) \<and>
           i_finish goal use_bpmx return_path bound t st1 = Some r"
proof -
  from run have loop: "ida_loop lim start goal hfun nbrs use_bpmx return_path (hfun start) (hfun start)
      (i_init start budget) = Some r"
    by (simp add: ida_star_def Let_def)
  from ida_loop_rule[where I = "\<lambda>_ _. True", OF loop] show ?thesis by blast
qed

lemma i_finish_counters:
  "i_finish goal use_bpmx return_path bound t st1 = Some r \<Longrightarrow> has_three_counters r"
  unfolding i_finish_def by (auto simp: run_inv_i_record split: if_splits option.splits)

lemma ida_star_result:
  assumes run: "ida_star lim start goal hfun nbrs use_bpmx return_path budget = Some r"
    and h0: "0 \<le> hfun start"
  shows "run_inv r"
proof -
  from run have loop: "ida_loop lim start goal hfun nbrs use_bpmx return_path (hfun start) (hfun start)
      (i_init start budget) = Some r"
    by (simp add: ida_star_def Let_def)
  have "\<exists>bound' st' t st1. 0 \<le> bound' \<and>
           ida_dfs lim goal hfun nbrs use_bpmx start 0 bound' (hfun start) 0
             (st'\<lparr>i_pathset := {start}\<rparr>) = Some (t, st1) \<and>
           (t = TIMEOUT \<or> t = Fin (- 1) \<or> t = Inf) \<and>
           i_finish goal use_bpmx return_path bound' t st1 = Some r"
  proof (rule ida_loop_rule[where I = "\<lambda>b _. 0 \<le> b", OF loop])
    show "0 \<le> hfun start" by (rule h0)
  next
    fix bound :: int and st :: "'a istate" and n st1
    assume "0 \<le> bound" and n: "n \<noteq> - 1"
      and "ida_dfs lim goal hfun nbrs use_bpmx start 0 bound (hfun start) 0
             (st\<lparr>i_pathset := {start}\<rparr>) = Some (Fin n, st1)"
    then show "0 \<le> n" by (auto dest!: ret_ok_dfs simp: ret_ok_def)
  qed
  then obtain bound' st' t st1 where b: "0 \<le> bound'"
    and d: "ida_dfs lim goal hfun nbrs use_bpmx start 0 bound' (hfun start) 0
             (st'\<lparr>i_pathset := {start}\<rparr>) = Some (t, st1)"
    and t: "t = TIMEOUT \<or> t = Fin (- 1) \<or> t = Inf"
    and f: "i_finish goal use_bpmx return_path bound' t st1 = Some r"
    by blast
  from ret_ok_dfs[OF d] b have "t = Fin (- 1) \<longrightarrow> i_solution_g st1 \<noteq> None"
    by (auto simp: ret_ok_def)
  with t f show ?thesis
    unfolding i_finish_def val_of_int_option_def
    by (auto simp: run_inv_i_record split: if_splits option.splits)
qed

lemma sample_runs:
  "\<not> Option.is_none (a_star [1,2,3,4,5,6,0,7,8] GOAL (hfun_of manhattan) neighbors_fn8 ''h'' True None)"
  "\<not> Option.is_none (ida_star 40 [1,2,3,4,5,6,0,7,8] GOAL (hfun_of manhattan) neighbors_fn8 True True None)"
  "\<not> Option.is_none (bfs [1,2,3,4,5,6,0,7,8] GOAL neighbors_fn8 None)"
  "\<not> Option.is_none (dfs [1,2,3,4,5,6,0,7,8] GOAL neighbors_fn8 (Some 3) None)"
  "0 \<le> hfun_of manhattan [1,2,3,4,5,6,0,7,8]"
  by code_simp+

text \<open>
  C8, amended.  The records of \<open>a_star\<close>, \<open>ida_star\<close> and \<open>dfs\<close> contain the three
  counters \<open>expanded\<close>, \<open>generated\<close> and \<open>duplicates\<close> in every terminal case; the record of
  \<open>bfs\<close> contains \<open>expanded\<close> and \<open>generated\<close> and has no \<open>duplicates\<close> entry.
\<close>

theorem record_counters:
  "(a_star start goal hfun nbrs tie_break return_path budget = Some r1 \<longrightarrow> has_three_counters r1) \<and>
   (ida_star lim start goal hfun nbrs use_bpmx return_path budget = Some r2 \<longrightarrow>
      has_three_counters r2) \<and>
   (dfs start goal nbrs max_depth budget = Some r4 \<longrightarrow> has_three_counters r4) \<and>
   (bfs start goal nbrs budget = Some r3 \<longrightarrow>
      has_counter r3 K_expanded \<and> has_counter r3 K_generated \<and> r3 K_duplicates = None)"
proof (intro conjI impI)
  assume "a_star start goal hfun nbrs tie_break return_path budget = Some r1"
  then show "has_three_counters r1" by (simp add: a_star_result)
next
  assume "ida_star lim start goal hfun nbrs use_bpmx return_path budget = Some r2"
  from ida_loop_finish[OF this] show "has_three_counters r2"
    by (auto dest: i_finish_counters)
next
  assume "dfs start goal nbrs max_depth budget = Some r4"
  then show "has_three_counters r4" by (simp add: dfs_result)
next
  assume b: "bfs start goal nbrs budget = Some r3"
  show "has_counter r3 K_expanded" "has_counter r3 K_generated" "r3 K_duplicates = None"
    using bfs_result[OF b] by simp_all
qed

theorem record_counters_witness:
  "\<exists>r1 r2 r3 r4.
     a_star [1,2,3,4,5,6,0,7,8] GOAL (hfun_of manhattan) neighbors_fn8 ''h'' True None = Some r1 \<and>
     has_three_counters r1 \<and>
     ida_star 40 [1,2,3,4,5,6,0,7,8] GOAL (hfun_of manhattan) neighbors_fn8 True True None = Some r2 \<and>
     has_three_counters r2 \<and>
     dfs [1,2,3,4,5,6,0,7,8] GOAL neighbors_fn8 (Some 3) None = Some r4 \<and> has_three_counters r4 \<and>
     bfs [1,2,3,4,5,6,0,7,8] GOAL neighbors_fn8 None = Some r3 \<and>
     has_counter r3 K_expanded \<and> has_counter r3 K_generated \<and> r3 K_duplicates = None"
proof -
  from sample_runs obtain r1 r2 r3 r4 where
    r: "a_star [1,2,3,4,5,6,0,7,8] GOAL (hfun_of manhattan) neighbors_fn8 ''h'' True None = Some r1"
       "ida_star 40 [1,2,3,4,5,6,0,7,8] GOAL (hfun_of manhattan) neighbors_fn8 True True None = Some r2"
       "bfs [1,2,3,4,5,6,0,7,8] GOAL neighbors_fn8 None = Some r3"
       "dfs [1,2,3,4,5,6,0,7,8] GOAL neighbors_fn8 (Some 3) None = Some r4"
    by (auto simp: Option.is_none_def)
  with record_counters [of "[1,2,3,4,5,6,0,7,8]" GOAL "hfun_of manhattan" neighbors_fn8 "''h''" True
      None r1 40 True r2 "Some 3" r4 r3]
  show ?thesis by blast
qed

text \<open>C8 as stated fails: the record that \<open>bfs\<close> returns has no \<open>duplicates\<close> counter.\<close>

theorem bfs_no_duplicates_counterexample:
  "\<exists>r. bfs GOAL GOAL neighbors_fn8 None = Some r \<and> \<not> has_three_counters r"
  by (simp add: bfs_def b_init_def bfs_loop_unfold b_ok_result_def bfs_walk_root expired_def
        b_record_def b_popped_def has_three_counters_def has_counter_def split del: if_split)

section \<open>The state at which a run returns\<close>

lemma iter_step_snoc:
  "iter_step step n s0 = Some st \<Longrightarrow> step st = Inr st' \<Longrightarrow> iter_step step (Suc n) s0 = Some st'"
proof (induction n arbitrary: s0)
  case 0
  then show ?case by simp
next
  case (Suc n)
  from Suc.prems(1) obtain s1 where s1: "step s0 = Inr s1" "iter_step step n s1 = Some st"
    by (auto split: sum.splits)
  from Suc.IH[OF s1(2) Suc.prems(2)] s1(1) show ?case by simp
qed

lemma a_star_final:
  assumes "a_star start goal hfun nbrs tie_break return_path budget = Some r"
  shows "\<exists>n st. iter_step (a_step goal hfun nbrs tie_break return_path) n
                  (a_init start hfun tie_break budget) = Some st \<and>
                a_step goal hfun nbrs tie_break return_path st = Inl r"
proof -
  let ?step = "a_step goal hfun nbrs tie_break return_path"
  let ?I = "\<lambda>st. \<exists>n. iter_step ?step n (a_init start hfun tie_break budget) = Some st"
  have "\<exists>st'. ?I st' \<and>
           (a_open st' = [] \<and> r = a_record st' tie_break VNone VNone ''exhausted''
            \<or> a_open st' \<noteq> [] \<and> expired (a_budget st') \<and>
                r = a_record st' tie_break VNone VNone ''timeout''
            \<or> a_open st' \<noteq> [] \<and> \<not> expired (a_budget st') \<and>
                it_state (a_node st') \<notin> a_closed st' \<and> it_state (a_node st') = goal \<and>
                r = a_ok_record tie_break return_path st')"
  proof (rule a_star_loop_rule[OF assms[unfolded a_star_def], where I = ?I])
    have "iter_step ?step 0 (a_init start hfun tie_break budget) = Some (a_init start hfun tie_break budget)"
      by simp
    then show "?I (a_init start hfun tie_break budget)" by blast
  next
    fix st assume "?I st" and c: "a_open st \<noteq> []" "\<not> expired (a_budget st)"
      "it_state (a_node st) \<in> a_closed st"
    then obtain n where "iter_step ?step n (a_init start hfun tie_break budget) = Some st" by blast
    moreover from c have "?step st = Inr (a_popped st)" by (simp add: a_step_def)
    ultimately show "?I (a_popped st)" by (blast dest: iter_step_snoc)
  next
    fix st assume "?I st" and c: "a_open st \<noteq> []" "\<not> expired (a_budget st)"
      "it_state (a_node st) \<notin> a_closed st" "it_state (a_node st) \<noteq> goal"
    then obtain n where "iter_step ?step n (a_init start hfun tie_break budget) = Some st" by blast
    moreover from c have "?step st = Inr (a_expand hfun nbrs tie_break st)" by (simp add: a_step_def)
    ultimately show "?I (a_expand hfun nbrs tie_break st)" by (blast dest: iter_step_snoc)
  qed
  then obtain st' n where n: "iter_step ?step n (a_init start hfun tie_break budget) = Some st'"
    and r: "a_open st' = [] \<and> r = a_record st' tie_break VNone VNone ''exhausted''
            \<or> a_open st' \<noteq> [] \<and> expired (a_budget st') \<and>
                r = a_record st' tie_break VNone VNone ''timeout''
            \<or> a_open st' \<noteq> [] \<and> \<not> expired (a_budget st') \<and>
                it_state (a_node st') \<notin> a_closed st' \<and> it_state (a_node st') = goal \<and>
                r = a_ok_record tie_break return_path st'"
    by blast
  from r have "?step st' = Inl r" by (auto simp: a_step_def)
  with n show ?thesis by blast
qed

lemma a_step_counters:
  "a_step goal hfun nbrs tie_break return_path st = Inl r \<Longrightarrow>
   counters_are r (a_expanded st) (a_generated st)"
  by (auto simp: a_step_def counters_are_def a_record_def a_ok_record_def a_popped_def
        split: if_splits)

lemma bfs_final:
  assumes "bfs start goal nbrs budget = Some r"
  shows "\<exists>n st. iter_step (b_step goal nbrs) n (b_init start budget) = Some st \<and>
                b_step goal nbrs st = Inl (Some r)"
proof -
  let ?step = "b_step goal nbrs"
  let ?I = "\<lambda>st. \<exists>n. iter_step ?step n (b_init start budget) = Some st"
  have "\<exists>st'. ?I st' \<and>
           (b_q st' = [] \<and> r = b_record st' VNone VNone ''exhausted''
            \<or> b_q st' \<noteq> [] \<and> expired (b_budget st') \<and> r = b_record st' VNone VNone ''timeout''
            \<or> b_q st' \<noteq> [] \<and> \<not> expired (b_budget st') \<and> hd (b_q st') = goal \<and>
                b_ok_result st' = Some r)"
  proof (rule bfs_loop_rule[OF assms[unfolded bfs_def], where I = ?I])
    have "iter_step ?step 0 (b_init start budget) = Some (b_init start budget)" by simp
    then show "?I (b_init start budget)" by blast
  next
    fix st assume "?I st" and c: "b_q st \<noteq> []" "\<not> expired (b_budget st)" "hd (b_q st) \<noteq> goal"
    then obtain n where "iter_step ?step n (b_init start budget) = Some st" by blast
    moreover from c have "?step st = Inr (b_expand nbrs st)" by (simp add: b_step_def)
    ultimately show "?I (b_expand nbrs st)" by (blast dest: iter_step_snoc)
  qed
  then obtain st' n where n: "iter_step ?step n (b_init start budget) = Some st'"
    and r: "b_q st' = [] \<and> r = b_record st' VNone VNone ''exhausted''
            \<or> b_q st' \<noteq> [] \<and> expired (b_budget st') \<and> r = b_record st' VNone VNone ''timeout''
            \<or> b_q st' \<noteq> [] \<and> \<not> expired (b_budget st') \<and> hd (b_q st') = goal \<and>
                b_ok_result st' = Some r"
    by blast
  from r have "?step st' = Inl (Some r)" by (auto simp: b_step_def)
  with n show ?thesis by blast
qed

lemma b_step_counters:
  "b_step goal nbrs st = Inl (Some r) \<Longrightarrow> counters_are r (b_expanded st) (b_generated st)"
  by (auto simp: b_step_def counters_are_def b_record_def b_ok_result_def b_popped_def
        split: if_splits option.splits)

lemma dfs_final:
  assumes "dfs start goal nbrs max_depth budget = Some r" "start \<noteq> goal"
  shows "\<exists>n st. iter_step (d_step goal nbrs max_depth) n (d_init start nbrs budget) = Some st \<and>
                d_step goal nbrs max_depth st = Inl (Some r)"
proof -
  let ?step = "d_step goal nbrs max_depth"
  let ?I = "\<lambda>st. \<exists>n. iter_step ?step n (d_init start nbrs budget) = Some st"
  from assms have loop: "dfs_loop goal nbrs max_depth (d_init start nbrs budget) = Some r"
    by (simp add: dfs_def)
  have "\<exists>st'. ?I st' \<and> ?step st' = Inl (Some r)"
  proof (rule dfs_loop_rule[OF loop, where I = ?I])
    have "iter_step ?step 0 (d_init start nbrs budget) = Some (d_init start nbrs budget)" by simp
    then show "?I (d_init start nbrs budget)" by blast
  next
    fix st st' assume "?I st" and "?step st = Inr st'"
    then show "?I st'" by (blast dest: iter_step_snoc)
  qed
  then show ?thesis by blast
qed

lemma is_ok_d_record: "is_ok (d_record md g e ge du pk term) = (term = ''ok'')"
  by (simp add: is_ok_def d_record_def)

lemma d_step_counters:
  assumes "d_step goal nbrs max_depth st = Inl (Some r)"
  shows "if is_ok r
         then counters_are r (d_expanded st + (if d_flag st then 0 else 1)) (d_generated st + 1)
         else counters_are r (d_expanded st) (d_generated st)"
  using assms unfolding d_step_def d_record_of_def d_flag_def
  by (auto simp: Let_def is_ok_def counters_are_def d_record_def
        split: list.splits if_splits option.splits)

lemma ida_star_final:
  assumes "ida_star lim start goal hfun nbrs use_bpmx return_path budget = Some r"
  shows "\<exists>n bound st t st1.
           iter_step (i_step lim start goal hfun nbrs use_bpmx return_path (hfun start)) n
             (hfun start, i_init start budget) = Some (bound, st) \<and>
           ida_dfs lim goal hfun nbrs use_bpmx start 0 bound (hfun start) 0
             (st\<lparr>i_pathset := {start}\<rparr>) = Some (t, st1) \<and>
           (t = TIMEOUT \<or> t = Fin (- 1) \<or> t = Inf) \<and>
           i_finish goal use_bpmx return_path bound t st1 = Some r"
proof -
  let ?step = "i_step lim start goal hfun nbrs use_bpmx return_path (hfun start)"
  let ?I = "\<lambda>b st. \<exists>n. iter_step ?step n (hfun start, i_init start budget) = Some (b, st)"
  from assms have loop: "ida_loop lim start goal hfun nbrs use_bpmx return_path (hfun start) (hfun start)
      (i_init start budget) = Some r"
    by (simp add: ida_star_def Let_def)
  have "\<exists>bound' st' t st1. ?I bound' st' \<and>
           ida_dfs lim goal hfun nbrs use_bpmx start 0 bound' (hfun start) 0
             (st'\<lparr>i_pathset := {start}\<rparr>) = Some (t, st1) \<and>
           (t = TIMEOUT \<or> t = Fin (- 1) \<or> t = Inf) \<and>
           i_finish goal use_bpmx return_path bound' t st1 = Some r"
  proof (rule ida_loop_rule[where I = ?I, OF loop])
    have "iter_step ?step 0 (hfun start, i_init start budget) = Some (hfun start, i_init start budget)"
      by simp
    then show "?I (hfun start) (i_init start budget)" by blast
  next
    fix bound :: int and st :: "'a istate" and m st1
    assume "?I bound st" and m: "m \<noteq> - 1"
      and d: "ida_dfs lim goal hfun nbrs use_bpmx start 0 bound (hfun start) 0
             (st\<lparr>i_pathset := {start}\<rparr>) = Some (Fin m, st1)"
    then obtain n where n: "iter_step ?step n (hfun start, i_init start budget) = Some (bound, st)"
      by blast
    from d m have "?step (bound, st) = Inr (m, st1)" by (simp add: i_step_def)
    from iter_step_snoc[OF n this] show "?I m st1" by blast
  qed
  then show ?thesis by blast
qed

lemma i_finish_counters_are:
  "i_finish goal use_bpmx return_path bound t st1 = Some r \<Longrightarrow>
   counters_are r (i_expanded st1) (i_generated st1)"
  unfolding i_finish_def
  by (auto simp: counters_are_def i_record_def split: if_splits option.splits)

text \<open>
  C4, amended.  Whenever one of the four algorithms returns a record, the record holds the
  values that the counters \<open>expanded\<close> and \<open>generated\<close> have at the moment of the return,
  in every terminal case, \<open>timeout\<close> and \<open>exhausted\<close> included: the run has made some
  number of iterations of its loop, none of which returned, the next iteration returns the
  record, and the record reports the counters of the state reached (for \<open>ida_star\<close> the
  state left by the last call of the nested \<open>dfs\<close>; for \<open>dfs\<close> on the return \<open>ok\<close> the
  counters after the iteration has counted the goal as generated and, when the flag of the
  top entry was not set, its parent as expanded; \<open>dfs\<close> on \<open>start = goal\<close> reports 0 and 0).
  For \<open>a_star\<close>, \<open>bfs\<close> and \<open>dfs\<close>, and for \<open>ida_star\<close> when the heuristic of the start
  state is not negative, the cost \<open>g\<close> is present exactly when the termination is \<open>ok\<close>, so
  exactly one of "\<open>g\<close> present" and "termination is not \<open>ok\<close>" holds.
\<close>

theorem record_invariant:
  "(a_star start goal hfun nbrs tie_break return_path budget = Some r1 \<longrightarrow>
      run_inv r1 \<and>
      (\<exists>n st. iter_step (a_step goal hfun nbrs tie_break return_path) n
                 (a_init start hfun tie_break budget) = Some st \<and>
               a_step goal hfun nbrs tie_break return_path st = Inl r1 \<and>
               counters_are r1 (a_expanded st) (a_generated st))) \<and>
   (ida_star lim start goal hfun nbrs use_bpmx return_path budget = Some r2 \<longrightarrow>
      (0 \<le> hfun start \<longrightarrow> run_inv r2) \<and>
      (\<exists>n bound st t st1.
         iter_step (i_step lim start goal hfun nbrs use_bpmx return_path (hfun start)) n
           (hfun start, i_init start budget) = Some (bound, st) \<and>
         ida_dfs lim goal hfun nbrs use_bpmx start 0 bound (hfun start) 0
           (st\<lparr>i_pathset := {start}\<rparr>) = Some (t, st1) \<and>
         i_finish goal use_bpmx return_path bound t st1 = Some r2 \<and>
         counters_are r2 (i_expanded st1) (i_generated st1))) \<and>
   (bfs start goal nbrs budget = Some r3 \<longrightarrow>
      run_inv r3 \<and>
      (\<exists>n st. iter_step (b_step goal nbrs) n (b_init start budget) = Some st \<and>
               b_step goal nbrs st = Inl (Some r3) \<and>
               counters_are r3 (b_expanded st) (b_generated st))) \<and>
   (dfs start goal nbrs max_depth budget = Some r4 \<longrightarrow>
      run_inv r4 \<and>
      (if start = goal then counters_are r4 0 0
       else \<exists>n st. iter_step (d_step goal nbrs max_depth) n (d_init start nbrs budget) = Some st \<and>
                    d_step goal nbrs max_depth st = Inl (Some r4) \<and>
                    (if is_ok r4
                     then counters_are r4 (d_expanded st + (if d_flag st then 0 else 1))
                            (d_generated st + 1)
                     else counters_are r4 (d_expanded st) (d_generated st))))"
proof (intro conjI impI)
  assume run: "a_star start goal hfun nbrs tie_break return_path budget = Some r1"
  then show "run_inv r1" by (simp add: a_star_result)
  from a_star_final[OF run]
  show "\<exists>n st. iter_step (a_step goal hfun nbrs tie_break return_path) n
                 (a_init start hfun tie_break budget) = Some st \<and>
               a_step goal hfun nbrs tie_break return_path st = Inl r1 \<and>
               counters_are r1 (a_expanded st) (a_generated st)"
    by (blast intro: a_step_counters)
next
  assume "ida_star lim start goal hfun nbrs use_bpmx return_path budget = Some r2"
    and "0 \<le> hfun start"
  then show "run_inv r2" by (simp add: ida_star_result)
next
  assume run: "ida_star lim start goal hfun nbrs use_bpmx return_path budget = Some r2"
  from ida_star_final[OF run]
  show "\<exists>n bound st t st1.
         iter_step (i_step lim start goal hfun nbrs use_bpmx return_path (hfun start)) n
           (hfun start, i_init start budget) = Some (bound, st) \<and>
         ida_dfs lim goal hfun nbrs use_bpmx start 0 bound (hfun start) 0
           (st\<lparr>i_pathset := {start}\<rparr>) = Some (t, st1) \<and>
         i_finish goal use_bpmx return_path bound t st1 = Some r2 \<and>
         counters_are r2 (i_expanded st1) (i_generated st1)"
    by (blast intro: i_finish_counters_are)
next
  assume run: "bfs start goal nbrs budget = Some r3"
  then show "run_inv r3" by (simp add: bfs_result)
  from bfs_final[OF run]
  show "\<exists>n st. iter_step (b_step goal nbrs) n (b_init start budget) = Some st \<and>
               b_step goal nbrs st = Inl (Some r3) \<and>
               counters_are r3 (b_expanded st) (b_generated st)"
    by (blast intro: b_step_counters)
next
  assume run: "dfs start goal nbrs max_depth budget = Some r4"
  then show "run_inv r4" by (simp add: dfs_result)
  show "if start = goal then counters_are r4 0 0
       else \<exists>n st. iter_step (d_step goal nbrs max_depth) n (d_init start nbrs budget) = Some st \<and>
                    d_step goal nbrs max_depth st = Inl (Some r4) \<and>
                    (if is_ok r4
                     then counters_are r4 (d_expanded st + (if d_flag st then 0 else 1))
                            (d_generated st + 1)
                     else counters_are r4 (d_expanded st) (d_generated st))"
  proof (cases "start = goal")
    case True
    with run show ?thesis by (auto simp: dfs_def counters_are_def d_record_def)
  next
    case False
    from dfs_final[OF run False] obtain n st where
      st: "iter_step (d_step goal nbrs max_depth) n (d_init start nbrs budget) = Some st"
        "d_step goal nbrs max_depth st = Inl (Some r4)" by blast
    from d_step_counters[OF st(2)] st
    have "\<exists>n st. iter_step (d_step goal nbrs max_depth) n (d_init start nbrs budget) = Some st \<and>
                    d_step goal nbrs max_depth st = Inl (Some r4) \<and>
                    (if is_ok r4
                     then counters_are r4 (d_expanded st + (if d_flag st then 0 else 1))
                            (d_generated st + 1)
                     else counters_are r4 (d_expanded st) (d_generated st))"
      by blast
    then show ?thesis unfolding if_not_P[OF False] .
  qed
qed

theorem record_invariant_witness:
  "\<exists>r1 r2 r3 r4.
     a_star [1,2,3,4,5,6,0,7,8] GOAL (hfun_of manhattan) neighbors_fn8 ''h'' True None = Some r1 \<and>
     run_inv r1 \<and>
     (\<exists>n st. iter_step (a_step GOAL (hfun_of manhattan) neighbors_fn8 ''h'' True) n
                 (a_init [1,2,3,4,5,6,0,7,8] (hfun_of manhattan) ''h'' None) = Some st \<and>
               counters_are r1 (a_expanded st) (a_generated st)) \<and>
     0 \<le> hfun_of manhattan [1,2,3,4,5,6,0,7,8] \<and>
     ida_star 40 [1,2,3,4,5,6,0,7,8] GOAL (hfun_of manhattan) neighbors_fn8 True True None = Some r2 \<and>
     run_inv r2 \<and>
     (\<exists>n bound st t st1.
         iter_step (i_step 40 [1,2,3,4,5,6,0,7,8] GOAL (hfun_of manhattan) neighbors_fn8 True True
                      (hfun_of manhattan [1,2,3,4,5,6,0,7,8])) n
           (hfun_of manhattan [1,2,3,4,5,6,0,7,8], i_init [1,2,3,4,5,6,0,7,8] None) = Some (bound, st) \<and>
         ida_dfs 40 GOAL (hfun_of manhattan) neighbors_fn8 True [1,2,3,4,5,6,0,7,8] 0 bound
           (hfun_of manhattan [1,2,3,4,5,6,0,7,8]) 0
           (st\<lparr>i_pathset := {[1,2,3,4,5,6,0,7,8]}\<rparr>) = Some (t, st1) \<and>
         counters_are r2 (i_expanded st1) (i_generated st1)) \<and>
     bfs [1,2,3,4,5,6,0,7,8] GOAL neighbors_fn8 None = Some r3 \<and> run_inv r3 \<and>
     (\<exists>n st. iter_step (b_step GOAL neighbors_fn8) n (b_init [1,2,3,4,5,6,0,7,8] None) = Some st \<and>
               counters_are r3 (b_expanded st) (b_generated st)) \<and>
     dfs [1,2,3,4,5,6,0,7,8] GOAL neighbors_fn8 (Some 3) None = Some r4 \<and> run_inv r4 \<and>
     (\<exists>n st. iter_step (d_step GOAL neighbors_fn8 (Some 3)) n
                 (d_init [1,2,3,4,5,6,0,7,8] neighbors_fn8 None) = Some st \<and>
               d_step GOAL neighbors_fn8 (Some 3) st = Inl (Some r4))"
proof -
  from sample_runs obtain r1 r2 r3 r4 where
    r: "a_star [1,2,3,4,5,6,0,7,8] GOAL (hfun_of manhattan) neighbors_fn8 ''h'' True None = Some r1"
       "ida_star 40 [1,2,3,4,5,6,0,7,8] GOAL (hfun_of manhattan) neighbors_fn8 True True None = Some r2"
       "bfs [1,2,3,4,5,6,0,7,8] GOAL neighbors_fn8 None = Some r3"
       "dfs [1,2,3,4,5,6,0,7,8] GOAL neighbors_fn8 (Some 3) None = Some r4"
    by (auto simp: Option.is_none_def)
  have ne: "[1,2,3,4,5,6,0,7,8] \<noteq> GOAL" by (simp add: GOAL_def)
  note inv = record_invariant [of "[1,2,3,4,5,6,0,7,8]" GOAL "hfun_of manhattan" neighbors_fn8
      "''h''" True None r1 40 True r2 r3 "Some 3" r4]
  from inv r(1) have c1: "run_inv r1"
    "\<exists>n st. iter_step (a_step GOAL (hfun_of manhattan) neighbors_fn8 ''h'' True) n
                 (a_init [1,2,3,4,5,6,0,7,8] (hfun_of manhattan) ''h'' None) = Some st \<and>
               counters_are r1 (a_expanded st) (a_generated st)"
    by blast+
  from inv r(2) sample_runs(5) have c2: "run_inv r2"
    "\<exists>n bound st t st1.
         iter_step (i_step 40 [1,2,3,4,5,6,0,7,8] GOAL (hfun_of manhattan) neighbors_fn8 True True
                      (hfun_of manhattan [1,2,3,4,5,6,0,7,8])) n
           (hfun_of manhattan [1,2,3,4,5,6,0,7,8], i_init [1,2,3,4,5,6,0,7,8] None) = Some (bound, st) \<and>
         ida_dfs 40 GOAL (hfun_of manhattan) neighbors_fn8 True [1,2,3,4,5,6,0,7,8] 0 bound
           (hfun_of manhattan [1,2,3,4,5,6,0,7,8]) 0
           (st\<lparr>i_pathset := {[1,2,3,4,5,6,0,7,8]}\<rparr>) = Some (t, st1) \<and>
         counters_are r2 (i_expanded st1) (i_generated st1)"
    by blast+
  from inv r(3) have c3: "run_inv r3"
    "\<exists>n st. iter_step (b_step GOAL neighbors_fn8) n (b_init [1,2,3,4,5,6,0,7,8] None) = Some st \<and>
               counters_are r3 (b_expanded st) (b_generated st)"
    by blast+
  from inv r(4) have "run_inv r4 \<and>
      (if [1,2,3,4,5,6,0,7,8] = GOAL then counters_are r4 0 0
       else \<exists>n st. iter_step (d_step GOAL neighbors_fn8 (Some 3)) n
                      (d_init [1,2,3,4,5,6,0,7,8] neighbors_fn8 None) = Some st \<and>
                    d_step GOAL neighbors_fn8 (Some 3) st = Inl (Some r4) \<and>
                    (if is_ok r4
                     then counters_are r4 (d_expanded st + (if d_flag st then 0 else 1))
                            (d_generated st + 1)
                     else counters_are r4 (d_expanded st) (d_generated st)))"
    by blast
  then have c4: "run_inv r4"
    "\<exists>n st. iter_step (d_step GOAL neighbors_fn8 (Some 3)) n
                 (d_init [1,2,3,4,5,6,0,7,8] neighbors_fn8 None) = Some st \<and>
               d_step GOAL neighbors_fn8 (Some 3) st = Inl (Some r4)"
    unfolding if_not_P[OF ne] by blast+
  from r c1 c2 c3 c4 sample_runs(5) show ?thesis by blast
qed

text \<open>
  C4 as stated fails for \<open>ida_star\<close>: with a heuristic that is negative at the start state
  the \<open>f\<close>-value \<open>-1\<close> of a successor is read as "goal found", and the record has the
  termination \<open>ok\<close> and the cost \<open>None\<close>.
\<close>

theorem record_invariant_negative_h_counterexample:
  "\<exists>r. ida_star 40 [1,2,3,4,5,6,0,7,8] GOAL
          (\<lambda>s. if s = [1,2,3,4,5,6,0,7,8] then - 5 else - 2) neighbors_fn8 False False None = Some r \<and>
        r K_termination = Some (VStr ''ok'') \<and> r K_g = Some VNone \<and> \<not> run_inv r"
proof -
  have "case ida_star 40 [1,2,3,4,5,6,0,7,8] GOAL
          (\<lambda>s. if s = [1,2,3,4,5,6,0,7,8] then - 5 else - 2) neighbors_fn8 False False None of
          None \<Rightarrow> False
        | Some r \<Rightarrow> r K_termination = Some (VStr ''ok'') \<and> r K_g = Some VNone"
    by code_simp
  then show ?thesis
    by (auto simp: run_inv_def g_present_def is_ok_def split: option.splits)
qed

section \<open>The parity of the inversions under a move of the blank\<close>

lemma inner_loop:
  "foldl (\<lambda>inv j. if (x::int) > arr ! j then inv + 1 else inv) acc [a ..< b] =
   acc + length (filter (\<lambda>j. x > arr ! j) [a ..< b])"
proof (induction b arbitrary: acc)
  case 0
  then show ?case by simp
next
  case (Suc b)
  then show ?case by (cases "a \<le> b") auto
qed

lemma drop_as_map_nth: "drop a arr = map (\<lambda>j. arr ! j) [a ..< length arr]"
proof -
  have "drop a (map (\<lambda>j. arr ! j) [0 ..< length arr]) = map (\<lambda>j. arr ! j) [a ..< length arr]"
    by (simp add: drop_map)
  then show ?thesis by (simp add: map_nth)
qed

lemma filter_nth_upt:
  "length (filter (\<lambda>j. P (arr ! j)) [a ..< length arr]) = length (filter P (drop a arr))"
  by (subst drop_as_map_nth) (simp add: filter_map comp_def)

lemma outer_loop:
  "foldl (\<lambda>inv i. inv + length (filter (\<lambda>y. arr ! i > y) (drop (Suc i) arr))) acc [k ..< length arr]
   = acc + inv_count (drop k arr)"
proof (induction "length arr - k" arbitrary: k acc)
  case 0
  then show ?case by simp
next
  case (Suc n)
  then have k: "k < length arr" by simp
  have d: "drop k arr = arr ! k # drop (Suc k) arr" using k by (simp add: Cons_nth_drop_Suc)
  have u: "[k ..< length arr] = k # [Suc k ..< length arr]" using k by (simp add: upt_rec)
  have n: "n = length arr - Suc k" using Suc(2) by simp
  show ?case
    by (simp only: u foldl_Cons Suc(1)[OF n] d inv_count.simps)
qed

lemma inversions_inv_count: "inversions arr = inv_count arr"
proof -
  have "(\<lambda>inv i. foldl (\<lambda>inv j. if arr ! i > arr ! j then inv + 1 else inv) inv
                       [i + 1 ..< length arr])
      = (\<lambda>inv i. inv + length (filter (\<lambda>y. arr ! i > y) (drop (Suc i) arr)))"
    by (intro ext) (simp add: inner_loop filter_nth_upt[of "\<lambda>y. y < arr ! i" for i])
  then show ?thesis
    using outer_loop[of arr 0 0] by (simp add: inversions_def)
qed

lemma inv_count_append:
  "inv_count (xs @ ys) =
   inv_count xs + inv_count ys + (\<Sum>x\<leftarrow>xs. length (filter (\<lambda>y. x > y) ys))"
  by (induction xs) auto

lemma cross_insert:
  "(\<Sum>x\<leftarrow>xs. length (filter (\<lambda>y. (x::int) > y) (zs @ t # ws))) =
   (\<Sum>x\<leftarrow>xs. length (filter (\<lambda>y. x > y) (zs @ ws))) + length (filter (\<lambda>x. x > t) xs)"
  by (induction xs) auto

lemma split_by_t:
  "(t::int) \<notin> set us \<Longrightarrow>
   length (filter (\<lambda>u. u > t) us) + length (filter (\<lambda>u. t > u) us) = length us"
  by (induction us) auto

lemma inv_count_move:
  assumes "t \<notin> set us"
  shows "\<exists>k. inv_count (xs @ us @ t # ys) + inv_count (xs @ t # us @ ys) = 2 * k + length us"
proof -
  have d: "inv_count (us @ t # ys) = inv_count us + inv_count ys + length (filter (\<lambda>y. t > y) ys)
       + (\<Sum>x\<leftarrow>us. length (filter (\<lambda>y. x > y) ys)) + length (filter (\<lambda>u. u > t) us)"
    using cross_insert[where xs = us and zs = "[]" and t = t and ws = ys] by (simp add: inv_count_append)
  have e: "inv_count (t # us @ ys) = inv_count us + inv_count ys + length (filter (\<lambda>y. t > y) ys)
       + (\<Sum>x\<leftarrow>us. length (filter (\<lambda>y. x > y) ys)) + length (filter (\<lambda>u. t > u) us)"
    by (simp add: inv_count_append)
  have f: "(\<Sum>x\<leftarrow>xs. length (filter (\<lambda>y. x > y) (us @ t # ys))) =
           (\<Sum>x\<leftarrow>xs. length (filter (\<lambda>y. x > y) (t # us @ ys)))"
    using cross_insert[where xs = xs and zs = us and t = t and ws = ys]
      cross_insert[where xs = xs and zs = "[]" and t = t and ws = "us @ ys"] by simp
  let ?A = "inv_count xs + (\<Sum>x\<leftarrow>xs. length (filter (\<lambda>y. x > y) (t # us @ ys)))
      + inv_count us + inv_count ys + length (filter (\<lambda>y. t > y) ys)
       + (\<Sum>x\<leftarrow>us. length (filter (\<lambda>y. x > y) ys))"
  have "inv_count (xs @ us @ t # ys) + inv_count (xs @ t # us @ ys) = 2 * ?A + length us"
    using split_by_t[OF assms]
    by (simp only: inv_count_append[of xs] d e f) simp
  then show ?thesis by blast
qed

lemma index_of_Some:
  "index_of x s = Some i \<Longrightarrow> i < length s \<and> s ! i = x"
proof (induction s arbitrary: i)
  case Nil
  then show ?case by simp
next
  case (Cons y ys)
  then show ?case by (cases "y = x") auto
qed

lemma index_of_mem: "x \<in> set s \<Longrightarrow> \<exists>i. index_of x s = Some i"
  by (induction s) auto

lemma index_of_distinct:
  "distinct s \<Longrightarrow> i < length s \<Longrightarrow> index_of (s ! i) s = Some i"
proof (induction s arbitrary: i)
  case Nil
  then show ?case by simp
next
  case (Cons y ys)
  show ?case
  proof (cases i)
    case 0
    then show ?thesis by simp
  next
    case (Suc k)
    with Cons.prems have "ys ! k \<noteq> y" by auto
    with Suc Cons show ?thesis by auto
  qed
qed

lemma swap_at_length [simp]: "length (swap_at s i j) = length s"
  by (simp add: swap_at_def)

lemma swap_at_set: "i < length s \<Longrightarrow> j < length s \<Longrightarrow> set (swap_at s i j) = set s"
  by (simp add: swap_at_def set_swap)

lemma swap_at_distinct: "i < length s \<Longrightarrow> j < length s \<Longrightarrow> distinct (swap_at s i j) = distinct s"
  by (simp add: swap_at_def distinct_swap)

lemma swap_at_nth:
  "i < length s \<Longrightarrow> j < length s \<Longrightarrow>
   swap_at s i j ! k = (if k = j then s ! i else if k = i then s ! j else s ! k)"
  by (auto simp: swap_at_def nth_list_update)

lemma swap_at_commute: "i < length s \<Longrightarrow> j < length s \<Longrightarrow> swap_at s i j = swap_at s j i"
  by (intro nth_equalityI) (auto simp: swap_at_nth)

lemma split_two:
  assumes "i < j" "j < length s"
  shows "s = take i s @ s ! i # take (j - i - 1) (drop (Suc i) s) @ s ! j # drop (Suc j) s"
proof -
  have 1: "s = take i s @ s ! i # drop (Suc i) s"
    using assms by (simp add: id_take_nth_drop[symmetric])
  have 2: "drop (Suc i) s = take (j - i - 1) (drop (Suc i) s) @ (drop (Suc i) s) ! (j - i - 1)
        # drop (Suc (j - i - 1)) (drop (Suc i) s)"
    using assms by (intro id_take_nth_drop) simp
  have 3: "(drop (Suc i) s) ! (j - i - 1) = s ! j" using assms by simp
  have 4: "drop (Suc (j - i - 1)) (drop (Suc i) s) = drop (Suc j) s" using assms by simp
  show ?thesis using 1 2 3 4 by metis
qed

lemma swap_lists:
  "swap_at (pre @ a # mid @ b # post) (length pre) (Suc (length pre + length mid)) =
   pre @ b # mid @ a # post"
proof -
  have 1: "(pre @ a # mid @ b # post) ! (length pre) = a" by simp
  have 2: "(pre @ a # mid @ b # post) ! (Suc (length pre + length mid)) = b"
    by (simp add: nth_append)
  have 3: "(pre @ a # mid @ b # post)[length pre := b] = pre @ b # mid @ b # post" by simp
  have 4: "(pre @ b # mid @ b # post)[Suc (length pre + length mid) := a] = pre @ b # mid @ a # post"
    using list_update_length[of "pre @ b # mid" b post a] by simp
  show ?thesis unfolding swap_at_def 1 2 3 4 ..
qed

lemma swap_decomp:
  assumes "i < j" "j < length s"
  shows "\<exists>pre mid post. s = pre @ s ! i # mid @ s ! j # post \<and>
           swap_at s i j = pre @ s ! j # mid @ s ! i # post \<and>
           length pre = i \<and> length mid = j - i - 1"
proof -
  define pre where "pre = take i s"
  define mid where "mid = take (j - i - 1) (drop (Suc i) s)"
  define post where "post = drop (Suc j) s"
  have s: "s = pre @ s ! i # mid @ s ! j # post"
    unfolding pre_def mid_def post_def by (rule split_two[OF assms])
  have lp: "length pre = i" and lm: "length mid = j - i - 1"
    using assms by (simp_all add: pre_def mid_def)
  have j: "j = Suc (length pre + length mid)" using lp lm assms by simp
  have "swap_at (pre @ s ! i # mid @ s ! j # post) (length pre) (Suc (length pre + length mid)) =
        pre @ s ! j # mid @ s ! i # post"
    by (rule swap_lists)
  then have "swap_at s i j = pre @ s ! j # mid @ s ! i # post"
    using s lp j by metis
  then show ?thesis using s lp lm by blast
qed

lemma valid_state_distinct: "valid_state n s \<Longrightarrow> distinct s"
proof -
  assume v: "valid_state n s"
  then have "card (set s) = n" by (simp add: valid_state_def card_image)
  with v show ?thesis by (simp add: valid_state_def card_distinct)
qed

lemma valid_state_zero: "valid_state n s \<Longrightarrow> 0 < n \<Longrightarrow> 0 \<in> set s"
  by (auto simp: valid_state_def)

lemma valid_state_blank:
  assumes "valid_state n s" "0 < n"
  shows "\<exists>z. index_of 0 s = Some z \<and> z < n \<and> s ! z = 0"
proof -
  from index_of_mem[OF valid_state_zero[OF assms]] obtain z where "index_of 0 s = Some z" by blast
  with index_of_Some[OF this] assms(1) show ?thesis by (auto simp: valid_state_def)
qed

lemma valid_state_swap:
  "valid_state n s \<Longrightarrow> i < n \<Longrightarrow> j < n \<Longrightarrow> valid_state n (swap_at s i j)"
  by (simp add: valid_state_def swap_at_set)

lemma index_of_swap:
  assumes v: "valid_state n s" and z: "index_of 0 s = Some z" and j: "j < n"
  shows "index_of 0 (swap_at s z j) = Some j"
proof -
  from index_of_Some[OF z] v have zl: "z < n" "s ! z = 0" by (auto simp: valid_state_def)
  have d: "distinct (swap_at s z j)"
    using valid_state_distinct[OF valid_state_swap[OF v zl(1) j]] .
  have "swap_at s z j ! j = 0" using zl j v by (simp add: swap_at_nth valid_state_def)
  moreover have "j < length (swap_at s z j)" using j v by (simp add: valid_state_def)
  ultimately show ?thesis using index_of_distinct[OF d, of j] by simp
qed

text \<open>The list of the tiles (the state without the blank) before and after a move.\<close>

lemma tiles_move_row:
  assumes "distinct s" "i < length s" "Suc i < length s" "s ! i = 0 \<or> s ! Suc i = 0"
  shows "filter (\<lambda>x. x \<noteq> 0) (swap_at s i (Suc i)) = filter (\<lambda>x. x \<noteq> 0) s"
proof -
  define a where "a = s ! i"
  define b where "b = s ! Suc i"
  from swap_decomp[of i "Suc i" s] assms obtain pre mid post where
    "s = pre @ s ! i # mid @ s ! Suc i # post"
    and "swap_at s i (Suc i) = pre @ s ! Suc i # mid @ s ! i # post"
    and "length mid = 0" by auto
  then have s: "s = pre @ a # b # post" and s': "swap_at s i (Suc i) = pre @ b # a # post"
    by (simp_all add: a_def b_def)
  have "a = 0 \<or> b = 0" using assms(4) by (simp add: a_def b_def)
  then have "filter (\<lambda>x. x \<noteq> 0) (pre @ b # a # post) =
        filter (\<lambda>x. x \<noteq> 0) (pre @ a # b # post)"
    by auto
  then show ?thesis by (simp only: s' s[symmetric])
qed

lemma tiles_move_col:
  assumes d: "distinct s" and ij: "i < j" "j < length s" and z: "s ! i = 0 \<or> s ! j = 0"
  shows "\<exists>k. inv_count (filter (\<lambda>x. x \<noteq> 0) s) + inv_count (filter (\<lambda>x. x \<noteq> 0) (swap_at s i j))
            = 2 * k + (j - i - 1)"
proof -
  define a where "a = s ! i"
  define b where "b = s ! j"
  from swap_decomp[OF ij] obtain pre mid post where
    s: "s = pre @ a # mid @ b # post"
    and s': "swap_at s i j = pre @ b # mid @ a # post"
    and lm: "length mid = j - i - 1" unfolding a_def b_def by blast
  let ?f = "filter (\<lambda>x. x \<noteq> (0::int))"
  have dd: "distinct (pre @ a # mid @ b # post)" using d by (simp only: s[symmetric])
  then have nm: "a \<notin> set mid" "b \<notin> set mid" "a \<noteq> b" by auto
  have z': "a = 0 \<or> b = 0" using z by (simp add: a_def b_def)
  then have "0 \<notin> set mid" using nm by auto
  then have fm: "?f mid = mid" by (induction mid) auto
  have fs: "?f s = ?f (pre @ a # mid @ b # post)" by (simp only: s[symmetric])
  from z' show ?thesis
  proof
    assume z: "a = 0"
    then have t: "b \<noteq> 0" using nm by simp
    have a: "?f s = ?f pre @ mid @ b # ?f post"
      unfolding fs using z t fm by simp
    have b: "?f (swap_at s i j) = ?f pre @ b # mid @ ?f post"
      unfolding s' using z t fm by simp
    from inv_count_move[OF nm(2), of "?f pre" "?f post"] obtain k where
      "inv_count (?f pre @ mid @ b # ?f post) + inv_count (?f pre @ b # mid @ ?f post)
        = 2 * k + length mid" by blast
    then have "inv_count (?f s) + inv_count (?f (swap_at s i j)) = 2 * k + (j - i - 1)"
      by (simp only: a b lm)
    then show ?thesis by blast
  next
    assume z: "b = 0"
    then have t: "a \<noteq> 0" using nm by simp
    have a: "?f s = ?f pre @ a # mid @ ?f post"
      unfolding fs using z t fm by simp
    have b: "?f (swap_at s i j) = ?f pre @ mid @ a # ?f post"
      unfolding s' using z t fm by simp
    from inv_count_move[OF nm(1), of "?f pre" "?f post"] obtain k where
      "inv_count (?f pre @ mid @ a # ?f post) + inv_count (?f pre @ a # mid @ ?f post)
        = 2 * k + length mid" by blast
    then have "inv_count (?f (swap_at s i j)) + inv_count (?f s) = 2 * k + (j - i - 1)"
      by (simp only: a b lm)
    then have "inv_count (?f s) + inv_count (?f (swap_at s i j)) = 2 * k + (j - i - 1)"
      by (simp only: add.commute)
    then show ?thesis by blast
  qed
qed

lemma rect_is_solvable_alt:
  "rect_is_solvable \<lparr>rp_R = R, rp_C = C\<rparr> s =
     (if odd C then Some (even (tiles_inv s))
      else (case index_of 0 s of None \<Rightarrow> None
            | Some z \<Rightarrow> Some (odd (int (tiles_inv s) + (int R - int (z div C))))))"
  by (auto simp: rect_is_solvable_def tiles_inv_def inversions_inv_count Let_def odd_iff_mod_2_eq_one
        even_iff_mod_2_eq_zero split: option.splits)

lemma move_parity:
  assumes v: "valid_state (R * C) s" and z: "index_of 0 s = Some z" and j: "j < R * C"
    and adj: "adjacent C z j"
  shows "(z div C = j div C \<and> tiles_inv (swap_at s z j) = tiles_inv s) \<or>
         ((z div C = j div C + 1 \<or> j div C = z div C + 1) \<and>
          (\<exists>k. tiles_inv s + tiles_inv (swap_at s z j) = 2 * k + (C - 1)))"
proof -
  from index_of_Some[OF z] v have zl: "z < R * C" "s ! z = 0" by (auto simp: valid_state_def)
  have len: "length s = R * C" using v by (simp add: valid_state_def)
  have d: "distinct s" by (rule valid_state_distinct[OF v])
  have C: "0 < C" using zl by (cases C) auto
  from adj consider "j = z + C" | "z = j + C" | "j = z + 1" "z div C = j div C"
    | "z = j + 1" "z div C = j div C" unfolding adjacent_def by blast
  then show ?thesis
  proof cases
    case 1
    then have "j div C = z div C + 1" using C by (simp add: div_add_self2)
    moreover from tiles_move_col[OF d, of z j] 1 C j len zl
    have "\<exists>k. tiles_inv s + tiles_inv (swap_at s z j) = 2 * k + (C - 1)"
      by (simp add: tiles_inv_def)
    ultimately show ?thesis by blast
  next
    case 2
    then have "z div C = j div C + 1" using C by (simp add: div_add_self2)
    moreover from tiles_move_col[OF d, of j z] 2 C j len zl
    have "\<exists>k. tiles_inv s + tiles_inv (swap_at s j z) = 2 * k + (C - 1)"
      by (simp add: tiles_inv_def)
    moreover have "swap_at s j z = swap_at s z j" using j zl len by (simp add: swap_at_commute)
    ultimately show ?thesis by metis
  next
    case 3
    with tiles_move_row[OF d, of z] j len zl show ?thesis by (simp add: tiles_inv_def)
  next
    case 4
    have "swap_at s j z = swap_at s z j" using j zl len by (simp add: swap_at_commute)
    with 4 tiles_move_row[OF d, of j] j len zl show ?thesis by (simp add: tiles_inv_def)
  qed
qed

lemma solvable_move:
  assumes v: "valid_state (R * C) s" and z: "index_of 0 s = Some z" and j: "j < R * C"
    and adj: "adjacent C z j"
    and solv: "rect_is_solvable \<lparr>rp_R = R, rp_C = C\<rparr> s = Some True"
  shows "rect_is_solvable \<lparr>rp_R = R, rp_C = C\<rparr> (swap_at s z j) = Some True"
proof -
  from index_of_Some[OF z] v have zl: "z < R * C" by (auto simp: valid_state_def)
  have C: "0 < C" using zl by (cases C) auto
  have z': "index_of 0 (swap_at s z j) = Some j" by (rule index_of_swap[OF v z j])
  have zr: "z div C < R" using zl C by (simp add: less_mult_imp_div_less)
  have jr: "j div C < R" using j C by (simp add: less_mult_imp_div_less)
  show ?thesis
  proof (cases "odd C")
    case True
    then have ec: "even (C - 1)" by simp
    from solv True have e: "even (tiles_inv s)" by (simp add: rect_is_solvable_alt)
    from move_parity[OF v z j adj]
    have "even (tiles_inv (swap_at s z j))"
    proof (elim disjE conjE exE)
      assume "tiles_inv (swap_at s z j) = tiles_inv s"
      with e show ?thesis by simp
    next
      fix k assume k: "tiles_inv s + tiles_inv (swap_at s z j) = 2 * k + (C - 1)"
      from k ec have "even (tiles_inv s + tiles_inv (swap_at s z j))" by simp
      with e show ?thesis by simp
    next
      fix k assume k: "tiles_inv s + tiles_inv (swap_at s z j) = 2 * k + (C - 1)"
      from k ec have "even (tiles_inv s + tiles_inv (swap_at s z j))" by simp
      with e show ?thesis by simp
    qed
    with True show ?thesis by (simp add: rect_is_solvable_alt)
  next
    case False
    then have oc: "odd (C - 1)" using C by simp
    from solv False z have o: "odd (int (tiles_inv s) + (int R - int (z div C)))"
      by (simp add: rect_is_solvable_alt)
    from move_parity[OF v z j adj]
    have "odd (int (tiles_inv (swap_at s z j)) + (int R - int (j div C)))"
    proof (elim disjE conjE exE)
      assume "z div C = j div C" "tiles_inv (swap_at s z j) = tiles_inv s"
      with o show ?thesis by simp
    next
      fix k assume r: "z div C = j div C + 1"
        and k: "tiles_inv s + tiles_inv (swap_at s z j) = 2 * k + (C - 1)"
      from k oc have "odd (tiles_inv s + tiles_inv (swap_at s z j))" by simp
      then have "even (tiles_inv s) \<noteq> even (tiles_inv (swap_at s z j))" by auto
      with o r show ?thesis by auto
    next
      fix k assume r: "j div C = z div C + 1"
        and k: "tiles_inv s + tiles_inv (swap_at s z j) = 2 * k + (C - 1)"
      from k oc have "odd (tiles_inv s + tiles_inv (swap_at s z j))" by simp
      then have "even (tiles_inv s) \<noteq> even (tiles_inv (swap_at s z j))" by auto
      with o r show ?thesis by auto
    qed
    with False z' show ?thesis by (simp add: rect_is_solvable_alt)
  qed
qed

lemma div_pred_same_row:
  assumes C: "0 < C" and "i mod C > 0"
  shows "(i - 1) div C = i div (C::nat)"
proof -
  have "i = (i mod C - 1) + 1 + (i div C) * C" using assms by simp
  then have "i - 1 = (i mod C - 1) + (i div C) * C" by linarith
  then have "(i - 1) div C = ((i mod C - 1) + (i div C) * C) div C" by simp
  also have "\<dots> = (i mod C - 1) div C + i div C" using C by simp
  also have "(i mod C - 1) div C = 0"
    using C by (simp add: less_imp_diff_less)
  finally show ?thesis by simp
qed

lemma div_succ_same_row: "Suc (i mod C) < C \<Longrightarrow> Suc i div C = i div (C::nat)"
  by (metis div_Suc mod_Suc_eq mod_less nat.distinct(1))

lemma below_in_board:
  assumes "0 < C" "Suc (i div C) < R"
  shows "i + C < R * (C::nat)"
proof -
  have "i < C + (i div C) * C" using assms(1) by (rule dividend_less_div_times)
  then have "i + C < (i div C + 2) * C" by simp
  also have "\<dots> \<le> R * C" using assms(2) by (intro mult_le_mono1) simp
  finally show ?thesis .
qed

lemma rp_nei_legal:
  assumes "2 \<le> R" "2 \<le> C"
  shows "legal_table R C (rp_nei \<lparr>rp_R = R, rp_C = C\<rparr>)"
  unfolding legal_table_def
proof (intro allI impI)
  fix z assume z: "z < R * C"
  have C: "0 < C" using assms by simp
  have r: "z div C < R" using z C by (simp add: less_mult_imp_div_less)
  let ?js = "(if z div C > 0 then [z - C] else [])
                   @ (if int (z div C) < int R - 1 then [z + C] else [])
                   @ (if z mod C > 0 then [z - 1] else [])
                   @ (if int (z mod C) < int C - 1 then [z + 1] else [])"
  have eq: "rp_nei \<lparr>rp_R = R, rp_C = C\<rparr> z = Some ?js"
    using z by (simp add: rp_nei_def rp_size_def Let_def)
  have ne: "?js \<noteq> []" using assms r by auto
  have all: "\<forall>j \<in> set ?js. j < R * C \<and> adjacent C z j"
  proof
    fix j assume "j \<in> set ?js"
    then consider "z div C > 0" "j = z - C" | "int (z div C) < int R - 1" "j = z + C"
      | "z mod C > 0" "j = z - 1" | "int (z mod C) < int C - 1" "j = z + 1"
      by (auto split: if_splits)
    then show "j < R * C \<and> adjacent C z j"
    proof cases
      case 1
      then have "C \<le> z" using C by (metis div_greater_zero_iff)
      with 1 z show ?thesis by (auto simp: adjacent_def)
    next
      case 2
      then have "Suc (z div C) < R" by linarith
      from below_in_board[OF C this] 2 show ?thesis by (simp add: adjacent_def)
    next
      case 3
      then have "0 < z" by (cases z) auto
      with 3 div_pred_same_row[OF C 3(1)] z show ?thesis by (auto simp: adjacent_def)
    next
      case 4
      then have s: "Suc (z mod C) < C" by linarith
      have "Suc z < R * C"
      proof -
        have "z = (z div C) * C + z mod C" by simp
        then have "Suc z < (z div C) * C + C" using s by linarith
        also have "\<dots> = (z div C + 1) * C" by simp
        also have "\<dots> \<le> R * C" using r by (intro mult_le_mono1) simp
        finally show ?thesis .
      qed
      with 4 div_succ_same_row[OF s] show ?thesis by (auto simp: adjacent_def)
    qed
  qed
  from eq ne all show "\<exists>js. rp_nei \<lparr>rp_R = R, rp_C = C\<rparr> z = Some js \<and> js \<noteq> [] \<and>
      (\<forall>j\<in>set js. j < R * C \<and> adjacent C z j)" by blast
qed

lemma NEI_legal: "legal_table 3 3 NEI"
  unfolding legal_table_def
proof (intro allI impI)
  fix z :: nat assume "z < 3 * 3"
  then consider "z = 0" | "z = 1" | "z = 2" | "z = 3" | "z = 4" | "z = 5" | "z = 6" | "z = 7" | "z = 8"
    by linarith
  then show "\<exists>js. NEI z = Some js \<and> js \<noteq> [] \<and> (\<forall>j\<in>set js. j < 3 * 3 \<and> adjacent 3 z j)"
    by cases (simp_all add: NEI_def adjacent_def)
qed

lemma candidates_subset: "set (candidates js lb) \<subseteq> set js"
proof (cases lb)
  case None
  then show ?thesis by (simp add: candidates_def)
next
  case (Some b)
  have "set (remove1 b js) \<subseteq> set js" by (rule set_remove1_subset)
  with Some show ?thesis by (simp add: candidates_def)
qed

lemma candidates_nonempty: "js \<noteq> [] \<Longrightarrow> candidates js lb \<noteq> []"
proof (cases lb)
  case None
  assume "js \<noteq> []" with None show ?thesis by (simp add: candidates_def)
next
  case (Some b)
  assume ne: "js \<noteq> []"
  show ?thesis
  proof (cases "b \<in> set js \<and> length js > 1")
    case True
    then have "length (remove1 b js) = length js - 1" by (simp add: length_remove1)
    with True have "length (remove1 b js) > 0" by simp
    with True Some show ?thesis by (auto simp: candidates_def)
  next
    case False
    with Some ne show ?thesis by (auto simp: candidates_def)
  qed
qed

lemma choice_mem: "cand \<noteq> [] \<Longrightarrow> \<exists>j. choice rnd k cand = Some j \<and> j \<in> set cand"
  by (simp add: choice_def)

lemma scramble_loop_solvable:
  assumes legal: "legal_table R C nei" and pos: "0 < R * C"
  shows "valid_state (R * C) s \<Longrightarrow> rect_is_solvable \<lparr>rp_R = R, rp_C = C\<rparr> s = Some True \<Longrightarrow>
         \<exists>s'. scramble_loop nei rnd k n s lb = Some s' \<and> valid_state (R * C) s' \<and>
              rect_is_solvable \<lparr>rp_R = R, rp_C = C\<rparr> s' = Some True"
proof (induction n arbitrary: k s lb)
  case 0
  then show ?case by simp
next
  case (Suc n)
  from valid_state_blank[OF Suc.prems(1) pos] obtain z where
    z: "index_of 0 s = Some z" "z < R * C" by blast
  from legal z(2) obtain js where
    js: "nei z = Some js" "js \<noteq> []" "\<forall>j \<in> set js. j < R * C \<and> adjacent C z j"
    unfolding legal_table_def by blast
  from choice_mem[OF candidates_nonempty[OF js(2)]] obtain j where
    j: "choice rnd k (candidates js lb) = Some j" "j \<in> set (candidates js lb)" by blast
  with candidates_subset js(3) have jj: "j < R * C" "adjacent C z j" by blast+
  have len: "length s = R * C" using Suc.prems(1) by (simp add: valid_state_def)
  have v': "valid_state (R * C) (swap_at s z j)"
    by (rule valid_state_swap[OF Suc.prems(1) z(2) jj(1)])
  have s': "rect_is_solvable \<lparr>rp_R = R, rp_C = C\<rparr> (swap_at s z j) = Some True"
    by (rule solvable_move[OF Suc.prems(1) z(1) jj Suc.prems(2)])
  from Suc.IH[OF v' s', of "Suc k" "Some z"] z js j jj len
  show ?case by simp
qed

lemma inv_count_sorted: "sorted xs \<Longrightarrow> inv_count xs = 0"
proof (induction xs)
  case Nil
  then show ?case by simp
next
  case (Cons x xs)
  then have "filter (\<lambda>y. x > y) xs = []" by (auto simp: filter_empty_conv)
  with Cons show ?case by simp
qed

lemma rp_GOAL_valid:
  assumes "0 < R * C"
  shows "valid_state (R * C) (rp_GOAL \<lparr>rp_R = R, rp_C = C\<rparr>)"
proof -
  have "int ` {0 ..< R * C} = insert 0 (int ` {1 ..< R * C})"
    using assms by (auto simp: image_iff)
  with assms show ?thesis
    by (simp add: valid_state_def rp_GOAL_def rp_size_def)
qed

lemma rp_GOAL_tiles: "tiles_inv (rp_GOAL p) = 0"
proof -
  have "filter (\<lambda>x. x \<noteq> 0) (map int [1 ..< rp_size p]) = map int [1 ..< rp_size p]"
    by (auto simp: filter_id_conv)
  moreover have "sorted (map int [1 ..< rp_size p])"
    by (simp add: sorted_map)
  ultimately show ?thesis by (simp add: tiles_inv_def rp_GOAL_def inv_count_sorted)
qed

section \<open>Scrambled states are solvable\<close>

lemma last_cell_row:
  assumes "0 < R" "0 < C"
  shows "(R * C - 1) div C = R - (1::nat)"
proof -
  obtain r c where rc: "R = Suc r" "C = Suc c" using assms by (cases R; cases C) auto
  have "Suc r * Suc c - 1 = c + r * Suc c" by simp
  moreover have "(c + r * Suc c) div Suc c = r + c div Suc c"
    by (rule div_mult_self1) simp
  ultimately have "(Suc r * Suc c - 1) div Suc c = r" by (simp add: ac_simps)
  then show ?thesis unfolding rc by simp
qed

lemma rp_GOAL_blank:
  assumes "0 < R * C"
  shows "index_of 0 (rp_GOAL \<lparr>rp_R = R, rp_C = C\<rparr>) = Some (R * C - 1)"
proof -
  let ?g = "rp_GOAL \<lparr>rp_R = R, rp_C = C\<rparr>"
  have d: "distinct ?g" by (rule valid_state_distinct[OF rp_GOAL_valid[OF assms]])
  have l: "length ?g = R * C" using rp_GOAL_valid[OF assms] by (simp add: valid_state_def)
  have "?g ! (R * C - 1) = 0" using assms
    by (simp add: rp_GOAL_def rp_size_def nth_append)
  with index_of_distinct[OF d, of "R * C - 1"] l assms show ?thesis by simp
qed

lemma rp_GOAL_solvable:
  assumes "0 < R" "0 < C"
  shows "rect_is_solvable \<lparr>rp_R = R, rp_C = C\<rparr> (rp_GOAL \<lparr>rp_R = R, rp_C = C\<rparr>) = Some True"
proof -
  have pos: "0 < R * C" using assms by simp
  have "int R - int (R - 1) = 1" using assms by simp
  then show ?thesis
    using rp_GOAL_blank[OF pos] last_cell_row[OF assms]
    by (simp add: rect_is_solvable_alt rp_GOAL_tiles)
qed

lemma rp_scramble_solvable:
  assumes "2 \<le> R" "2 \<le> C"
  shows "\<exists>s. rp_scramble \<lparr>rp_R = R, rp_C = C\<rparr> depth rnd = Some s \<and> valid_state (R * C) s \<and>
             rect_is_solvable \<lparr>rp_R = R, rp_C = C\<rparr> s = Some True"
proof -
  have pos: "0 < R * C" "0 < R" "0 < C" using assms by simp_all
  show ?thesis unfolding rp_scramble_def
    by (rule scramble_loop_solvable[OF rp_nei_legal[OF assms] pos(1) rp_GOAL_valid[OF pos(1)]
          rp_GOAL_solvable[OF pos(2,3)]])
qed

lemma GOAL_rp: "GOAL = rp_GOAL \<lparr>rp_R = 3, rp_C = 3\<rparr>"
  by (simp add: GOAL_def rp_GOAL_def rp_size_def upt_rec)

lemma is_solvable_rect: "is_solvable s = (rect_is_solvable \<lparr>rp_R = 3, rp_C = 3\<rparr> s = Some True)"
  by (simp add: rect_is_solvable_alt is_solvable_def tiles_inv_def inversions_inv_count
        even_iff_mod_2_eq_zero)

lemma scramble8_solvable:
  "\<exists>s. scramble depth rnd = Some s \<and> valid_state 9 s \<and> is_solvable s"
proof -
  have pos: "0 < (3::nat) * 3" "0 < (3::nat)" by simp_all
  from scramble_loop_solvable[OF NEI_legal pos(1) rp_GOAL_valid[OF pos(1)]
          rp_GOAL_solvable[OF pos(2,2)], of rnd 0 "nat depth" None]
  show ?thesis by (simp add: scramble_def GOAL_rp is_solvable_rect)
qed

lemma n_is_solvable_rect:
  "n_is_solvable \<lparr>rp_R = n, rp_C = n\<rparr> s = rect_is_solvable \<lparr>rp_R = n, rp_C = n\<rparr> s"
  by (simp add: n_is_solvable_def rect_is_solvable_def Let_def cong: option.case_cong)

text \<open>
  C6.  For every depth and every sequence of random choices (hence every seed), \<open>scramble\<close>
  returns a state and \<open>is_solvable\<close> is true of it: for the 3x3 puzzle, for every
  \<open>NPuzzle(n)\<close> and for every \<open>RectPuzzle(rows, cols)\<close>, the boards of even width
  included.
\<close>

theorem scramble_is_solvable:
  "(\<exists>s. scramble depth rnd = Some s \<and> is_solvable s) \<and>
   (NPuzzle n = Some p \<longrightarrow>
      (\<exists>s. rp_scramble p depth rnd = Some s \<and> n_is_solvable p s = Some True)) \<and>
   (RectPuzzle rows cols = Some q \<longrightarrow>
      (\<exists>s. rp_scramble q depth rnd = Some s \<and> rect_is_solvable q s = Some True))"
proof (intro conjI impI)
  show "\<exists>s. scramble depth rnd = Some s \<and> is_solvable s"
    using scramble8_solvable by blast
next
  assume "NPuzzle n = Some p"
  then have p: "p = \<lparr>rp_R = nat n, rp_C = nat n\<rparr>" and n: "2 \<le> nat n"
    by (auto simp: NPuzzle_def split: if_splits)
  from rp_scramble_solvable[OF n n] show
    "\<exists>s. rp_scramble p depth rnd = Some s \<and> n_is_solvable p s = Some True"
    unfolding p n_is_solvable_rect by blast
next
  assume "RectPuzzle rows cols = Some q"
  then have q: "q = \<lparr>rp_R = nat rows, rp_C = nat cols\<rparr>" and n: "2 \<le> nat rows" "2 \<le> nat cols"
    by (auto simp: RectPuzzle_def split: if_splits)
  from rp_scramble_solvable[OF n] show
    "\<exists>s. rp_scramble q depth rnd = Some s \<and> rect_is_solvable q s = Some True"
    unfolding q by blast
qed

theorem scramble_is_solvable_witness:
  "(\<exists>s. scramble 6 (\<lambda>k. k) = Some s \<and> is_solvable s) \<and>
   NPuzzle 4 = Some \<lparr>rp_R = 4, rp_C = 4\<rparr> \<and>
   (\<exists>s. rp_scramble \<lparr>rp_R = 4, rp_C = 4\<rparr> 6 (\<lambda>k. k) = Some s \<and>
        n_is_solvable \<lparr>rp_R = 4, rp_C = 4\<rparr> s = Some True) \<and>
   RectPuzzle 3 4 = Some \<lparr>rp_R = 3, rp_C = 4\<rparr> \<and>
   (\<exists>s. rp_scramble \<lparr>rp_R = 3, rp_C = 4\<rparr> 6 (\<lambda>k. k) = Some s \<and>
        rect_is_solvable \<lparr>rp_R = 3, rp_C = 4\<rparr> s = Some True)"
proof -
  have a: "NPuzzle 4 = Some \<lparr>rp_R = 4, rp_C = 4\<rparr>" by (simp add: NPuzzle_def)
  have b: "RectPuzzle 3 4 = Some \<lparr>rp_R = 3, rp_C = 4\<rparr>" by (simp add: RectPuzzle_def)
  show ?thesis
    using a b scramble_is_solvable [of 6 "\<lambda>k. k" 4 "\<lparr>rp_R = 4, rp_C = 4\<rparr>" 3 4
        "\<lparr>rp_R = 3, rp_C = 4\<rparr>"]
    by blast
qed

section \<open>The Manhattan distance is consistent and admissible\<close>


















section \<open>The moves of the 3x3 puzzle can be undone\<close>











section \<open>The states within a few moves of the goal\<close>











section \<open>The heuristics of the 3x3 puzzle\<close>






end
